theory Spec2Isabelle
  imports Main "HOL-Library.Sublist" "HOL-Library.AList"
begin

text \<open>
  A shallow embedding of the incremental GSMArena scraper: the credit counter and the
  block detector of the ScraperAPI layer, the pagination of a category, the scraping of
  one product, the loop over the categories with its error boundaries, and the ledger
  \<open>seen_products.json\<close>; and of the script that rebuilds the ledger from the brand files.

  The program is sequential.  Its calls are functions from the state before to an outcome
  and the state after; the state holds the credit counter, the in-memory ledger, the two
  kinds of files and the list of the effects performed so far.  What the program reads
  from the network, the DOM library, the clock and the file system are fields of an
  environment.  The pauses between requests and the console output have no effect on
  the state and are left out.  The request goes to the proxy with the encoded page URL;
  the environment answers by the page URL.
\<close>

section \<open>Strings and the regular expressions of the scraper\<close>

text \<open>
  JavaScript strings are modelled as \<open>string\<close> (lists of characters).  The three
  regular expressions of the source only mention ASCII letters, digits, \<open>-\<close>, \<open>/\<close>
  and \<open>.\<close>, so they are written out as list functions.  \<open>toLowerCase\<close> is modelled on
  the ASCII letters (every block keyword is ASCII).
\<close>

definition str_includes :: "string \<Rightarrow> string \<Rightarrow> bool" where
  \<comment> \<open>\<open>s.includes(t)\<close>\<close>
  "str_includes s t = list_ex (prefix t) (suffixes s)"

definition endsWith :: "string \<Rightarrow> string \<Rightarrow> bool" where
  \<comment> \<open>\<open>s.endsWith(t)\<close>\<close>
  "endsWith s t = prefix (rev t) (rev s)"

definition lowerChar :: "char \<Rightarrow> char" where
  "lowerChar c =
     (case map_of (zip ''ABCDEFGHIJKLMNOPQRSTUVWXYZ'' ''abcdefghijklmnopqrstuvwxyz'') c of
        Some l \<Rightarrow> l | None \<Rightarrow> c)"

definition toLowerCase :: "string \<Rightarrow> string" where
  "toLowerCase s = map lowerChar s"

definition isDigit :: "char \<Rightarrow> bool" where
  \<comment> \<open>the regex class \<open>\\d\<close>\<close>
  "isDigit c = (c \<in> set ''0123456789'')"

definition isWordChar :: "char \<Rightarrow> bool" where
  \<comment> \<open>the regex class \<open>\\w\<close>, which decides the word boundary \<open>\\b\<close>\<close>
  "isWordChar c = (isDigit c \<or> lowerChar c \<in> set ''abcdefghijklmnopqrstuvwxyz'' \<or> c = CHR ''_'')"

definition isSlugChar :: "char \<Rightarrow> bool" where
  \<comment> \<open>the regex class \<open>[a-z0-9-]\<close> under the flag \<open>i\<close>\<close>
  "isSlugChar c = (isDigit c \<or> lowerChar c \<in> set ''abcdefghijklmnopqrstuvwxyz'' \<or> c = CHR ''-'')"

definition prefix_ci :: "string \<Rightarrow> string \<Rightarrow> bool" where
  \<comment> \<open>a literal of a regex with flag \<open>i\<close> matched at the start of \<open>s\<close>\<close>
  "prefix_ci lit s = prefix (toLowerCase lit) (toLowerCase s)"

fun digitVal :: "char \<Rightarrow> nat" where
  "digitVal c = (case map_of (zip ''0123456789'' [0, 1, 2, 3, 4, 5, 6, 7, 8, 9]) c of
                   Some d \<Rightarrow> d | None \<Rightarrow> 0)"

definition digitChar :: "nat \<Rightarrow> char" where
  "digitChar d = ''0123456789'' ! (d mod 10)"

fun digitsOf :: "nat \<Rightarrow> string \<Rightarrow> string" where
  "digitsOf n acc = (if n < 10 then digitChar n # acc else digitsOf (n div 10) (digitChar n # acc))"

definition numToString :: "nat \<Rightarrow> string" where
  \<comment> \<open>the decimal text of a page number inside a template string\<close>
  "numToString n = digitsOf n []"

subsection \<open>\<open>extractProductId\<close>: the regex \<open>/-(\\d+)\\.php$/\<close>\<close>

definition extractProductId :: "string \<Rightarrow> string option" where
  "extractProductId url =
     (if endsWith url ''.php'' then
        (let body = take (length url - 4) url;
             ds = rev (takeWhile isDigit (rev body));
             pre = take (length body - length ds) body
         in if ds \<noteq> [] \<and> pre \<noteq> [] \<and> last pre = CHR ''-'' then Some ds else None)
      else None)"

subsection \<open>The listing URL regex
  \<open>/\\/([a-z0-9-]+)-(phones|tablets|watch|earbuds)-(\\d+)\\.php/i\<close>\<close>

definition matchTypeTail :: "string \<Rightarrow> string \<Rightarrow> (string \<times> string) option" where
  \<comment> \<open>one alternative \<open>ty\<close>, then \<open>-(\\d+)\\.php\<close>, at the start of \<open>s\<close>; the captures keep the
      text of \<open>s\<close>\<close>
  "matchTypeTail ty s =
     (if prefix_ci ty s then
        (case drop (length ty) s of
           [] \<Rightarrow> None
         | c # r \<Rightarrow>
             (let ds = takeWhile isDigit r in
              if c = CHR ''-'' \<and> ds \<noteq> [] \<and> prefix_ci ''.php'' (drop (length ds) r)
              then Some (take (length ty) s, ds) else None))
      else None)"

fun firstSome :: "('a \<Rightarrow> 'b option) \<Rightarrow> 'a list \<Rightarrow> 'b option" where
  "firstSome f [] = None"
| "firstSome f (x # xs) = (case f x of Some y \<Rightarrow> Some y | None \<Rightarrow> firstSome f xs)"

definition matchAfterSlug :: "string \<Rightarrow> (string \<times> string) option" where
  \<comment> \<open>\<open>-(phones|tablets|watch|earbuds)-(\\d+)\\.php\<close> at the start of \<open>s\<close>, alternatives in order\<close>
  "matchAfterSlug s =
     (case s of
        [] \<Rightarrow> None
      | c # r \<Rightarrow> if c = CHR ''-''
                 then firstSome (\<lambda>ty. matchTypeTail ty r) [''phones'', ''tablets'', ''watch'', ''earbuds'']
                 else None)"

definition matchFromSlash :: "string \<Rightarrow> (string \<times> string \<times> string) option" where
  \<comment> \<open>the text after a \<open>/\<close>: the greedy slug, backtracking from the longest run down to
      one character\<close>
  "matchFromSlash s =
     (let run = length (takeWhile isSlugChar s) in
      firstSome (\<lambda>k. case matchAfterSlug (drop k s) of
                        None \<Rightarrow> None
                      | Some (ty, ds) \<Rightarrow> Some (take k s, ty, ds))
                (rev [1 ..< Suc run]))"

fun matchBrandUrl :: "string \<Rightarrow> (string \<times> string \<times> string) option" where
  \<comment> \<open>the leftmost match in \<open>brandUrl\<close>: \<open>(slug, type, id)\<close>, or \<open>None\<close> for \<open>null\<close>\<close>
  "matchBrandUrl [] = None"
| "matchBrandUrl (c # s) =
     (if c = CHR ''/'' then
        (case matchFromSlash s of Some m \<Rightarrow> Some m | None \<Rightarrow> matchBrandUrl s)
      else matchBrandUrl s)"

subsection \<open>The year regex \<open>/\\b(20\\d{2})\\b/\<close> and \<open>parseInt\<close>\<close>

fun yearAt :: "string \<Rightarrow> nat option" where
  \<comment> \<open>\<open>20\\d{2}\<close> at the start of the text, followed by a word boundary; the value is
      \<open>parseInt\<close> of the four digits\<close>
  "yearAt (c1 # c2 # d1 # d2 # rest) =
     (if c1 = CHR ''2'' \<and> c2 = CHR ''0'' \<and> isDigit d1 \<and> isDigit d2 \<and>
         (case rest of [] \<Rightarrow> True | r # _ \<Rightarrow> \<not> isWordChar r)
      then Some (2000 + 10 * digitVal d1 + digitVal d2) else None)"
| "yearAt s = None"

fun findYear :: "char option \<Rightarrow> string \<Rightarrow> nat option" where
  \<comment> \<open>the leftmost match; \<open>prev\<close> is the character before the position tried, \<open>None\<close> at
      the start, and decides the word boundary in front\<close>
  "findYear prev [] = None"
| "findYear prev (c # cs) =
     (case (if (case prev of None \<Rightarrow> True | Some p \<Rightarrow> \<not> isWordChar p)
            then yearAt (c # cs) else None) of
        Some year \<Rightarrow> Some year
      | None \<Rightarrow> findYear (Some c) cs)"


section \<open>Data model\<close>

text \<open>
  A ledger entry and every other JSON object written to disk is a list of fields.  The
  in-memory ledger \<open>seenProducts\<close> is a JavaScript object used as a dictionary from product
  ids to entries; entries are objects and therefore truthy, so \<open>seenProducts[id]\<close> is truthy
  exactly when the id is in the domain of the map.  The fields of the three kinds of
  objects carry a prefix (\<open>link_\<close>, \<open>p_\<close>, \<open>bc_\<close>), since the objects share field names.
\<close>

datatype jvalue = JString string | JNumber nat

type_synonym jobject = "(string \<times> jvalue) list"

type_synonym ledger = "string \<rightharpoonup> jobject"

type_synonym html = string

type_synonym specs = "(string \<times> (string \<times> string) list) list"

record link =
  link_url :: string
  link_id :: string

record product =
  p_id :: "string option"
  p_name :: string
  p_brand :: string
  p_category :: string
  p_launchYear :: nat
  p_image :: "string option"
  p_url :: string
  p_specs :: specs
  p_scrapedAt :: string

record brandCategory =
  bc_name :: string
  bc_url :: string
  bc_category :: string

text \<open>
  The result of a call: it returns a value, throws \<open>new Error(msg)\<close>, or ends the process
  with \<open>process.exit(code)\<close>, which no \<open>catch\<close> intercepts.
\<close>

datatype 'a outcome = Return 'a | Throw string | Exit nat

text \<open>
  The effects of a run, in order.  \<open>Charge n\<close> is the statement \<open>creditsUsed++\<close> giving
  \<open>n\<close>; \<open>Fetch url r\<close> the call of \<open>axios.get\<close> for the page \<open>url\<close> with its response (\<open>Inl\<close>
  the message of the error it threw, \<open>Inr\<close> the body); \<open>Snapshot\<close> the debug snapshot of
  a page; \<open>Record id e\<close> the assignment \<open>seenProducts[id] = e\<close>; \<open>Save l ok\<close> the call
  \<open>fs.writeFileSync(STATE_FILE, ...)\<close> with the mapping written and whether it
  succeeded; \<open>Append p ok\<close> the call of \<open>appendScrapedProduct\<close>; \<open>Category name\<close> the start of
  an iteration of the category loop.
\<close>

datatype event =
    Charge nat
  | Fetch string "string + html"
  | Snapshot string bool
  | Record string jobject
  | Save ledger bool
  | Append product bool
  | Category string

text \<open>
  What the program reads from its surroundings.  The DOM queries of cheerio, the HTTP
  transport, the clock and failures of the file system are parameters:
  \<^item> \<open>axios_get n url\<close>: the response to the \<open>n\<close>-th charged request, asking the proxy for
    \<open>url\<close> (a body of another type than string makes \<open>isBlocked\<close> throw a TypeError inside
    the same \<open>try\<close>, so it is taken as \<open>Inl\<close> of that message);
  \<^item> \<open>makers_hrefs\<close>: the \<open>href\<close> attributes of \<open>$(".makers li a")\<close>, \<open>None\<close> for undefined;
  \<^item> \<open>h1_text\<close>: \<open>$("h1").text().trim()\<close>;  \<open>photo_src\<close>: the \<open>src\<close> of the main photo;
  \<^item> \<open>specs_tables\<close>: for each table of \<open>#specs-list\<close> the trimmed text of its first \<open>th\<close> and
    the trimmed \<open>(.ttl, .nfo)\<close> texts of its rows;
  \<^item> \<open>now_iso n\<close>: \<open>new Date().toISOString()\<close> read after the \<open>n\<close>-th charged request;
  \<^item> \<open>fs_error k\<close>: the message of the error thrown by the file-system operation that is
    the \<open>k\<close>-th effect of the run, \<open>None\<close> when it succeeds.  A failed write leaves the
    file as it was.
\<close>

record env =
  API_KEY :: string
  SAVE_HTML_SNAPSHOTS :: bool
  axios_get :: "nat \<Rightarrow> string \<Rightarrow> string + html"
  makers_hrefs :: "html \<Rightarrow> string option list"
  h1_text :: "html \<Rightarrow> string"
  photo_src :: "html \<Rightarrow> string option"
  specs_tables :: "html \<Rightarrow> (string \<times> (string \<times> string) list) list"
  now_iso :: "nat \<Rightarrow> string"
  fs_error :: "nat \<Rightarrow> string option"

text \<open>
  The state of the process and of the files it owns.  \<open>state_file\<close> is the content of
  \<open>seen_products.json\<close> (\<open>None\<close>: absent or not parseable); \<open>output_files\<close> maps the path of
  a brand file to the products in it.
\<close>

record state =
  creditsUsed :: nat
  seenProducts :: ledger
  allScrapedProducts :: "product list"
  state_file :: "ledger option"
  output_files :: "string \<rightharpoonup> product list"
  trace :: "event list"

definition emit :: "event \<Rightarrow> state \<Rightarrow> state" where
  "emit e st = st\<lparr>trace := trace st @ [e]\<rparr>"

section \<open>Configuration\<close>

definition BASE :: string where
  "BASE = ''https://www.gsmarena.com''"

definition MIN_LAUNCH_YEAR :: nat where
  "MIN_LAUNCH_YEAR = 2023"

definition MAX_CREDITS :: nat where
  "MAX_CREDITS = 950"

definition BLOCK_KEYWORDS :: "string list" where
  "BLOCK_KEYWORDS = [''captcha'', ''access denied'', ''unusual traffic'', ''blocked'',
     ''forbidden'', ''rate limit'', ''too many requests'']"

definition OUTPUT_DIR :: string where
  "OUTPUT_DIR = ''scraped_products''"

section \<open>State management\<close>

definition loadSeenProducts :: "state \<Rightarrow> ledger" where
  \<comment> \<open>a missing or unparseable file gives the empty mapping; a parseable file is taken to
      hold an object whose values are objects\<close>
  "loadSeenProducts st = (case state_file st of Some l \<Rightarrow> l | None \<Rightarrow> Map.empty)"

definition saveSeenProducts :: "env \<Rightarrow> state \<Rightarrow> unit outcome \<times> state" where
  \<comment> \<open>the \<open>try\<close> holds the write, the \<open>catch\<close> only logs\<close>
  "saveSeenProducts env st =
     (case (case fs_error env (length (trace st)) of
              Some msg \<Rightarrow> (Throw msg, emit (Save (seenProducts st) False) st)
            | None \<Rightarrow> (Return (),
                       emit (Save (seenProducts st) True) (st\<lparr>state_file := Some (seenProducts st)\<rparr>)))
      of (Throw msg, st1) \<Rightarrow> (Return (), st1)
       | r \<Rightarrow> r)"

definition brandFile :: "product \<Rightarrow> string" where
  "brandFile p = OUTPUT_DIR @ ''/'' @ toLowerCase (p_brand p) @ ''.json''"

definition appendScrapedProduct :: "env \<Rightarrow> state \<Rightarrow> product \<Rightarrow> unit outcome \<times> state" where
  \<comment> \<open>\<open>sort\<close> is stable and orders by launch year, newest first\<close>
  "appendScrapedProduct env st p =
     (case (case fs_error env (length (trace st)) of
              Some msg \<Rightarrow> (Throw msg, emit (Append p False) st)
            | None \<Rightarrow>
                (let brandProducts = (case output_files st (brandFile p) of
                                        Some ps \<Rightarrow> ps | None \<Rightarrow> []);
                     sorted = sort_key (\<lambda>q. - int (p_launchYear q)) (brandProducts @ [p])
                 in (Return (),
                     emit (Append p True)
                       (st\<lparr>output_files := (output_files st)(brandFile p \<mapsto> sorted)\<rparr>))))
      of (Throw msg, st1) \<Rightarrow> (Return (), st1)
       | r \<Rightarrow> r)"

section \<open>Utility functions\<close>

definition isBlocked :: "html \<Rightarrow> bool" where
  "isBlocked html =
     (let lowerHtml = toLowerCase html
      in list_ex (\<lambda>keyword. str_includes lowerHtml keyword) BLOCK_KEYWORDS)"

definition extractLaunchYear :: "specs \<Rightarrow> nat option" where
  "extractLaunchYear specs =
     (let launchSpec = (case map_of specs ''Launch'' of Some obj \<Rightarrow> obj | None \<Rightarrow> []);
          announced = (case map_of launchSpec ''Announced'' of Some a \<Rightarrow> a | None \<Rightarrow> [])
      in findYear None announced)"

definition hasSection :: "specs \<Rightarrow> string \<Rightarrow> bool" where
  \<comment> \<open>\<open>specs[s] && Object.keys(specs[s]).length > 0\<close>\<close>
  "hasSection specs s = (case map_of specs s of Some obj \<Rightarrow> obj \<noteq> [] | None \<Rightarrow> False)"

definition detectCategory :: "specs \<Rightarrow> string \<Rightarrow> string" where
  "detectCategory specs name =
     (let hasDisplay = hasSection specs ''Display'';
          hasBattery = hasSection specs ''Battery'';
          hasSIM = hasSection specs ''SIM'';
          hasSound = hasSection specs ''Sound'';
          hasBody = hasSection specs ''Body''
      in if hasSound \<and> \<not> hasDisplay \<and> \<not> hasSIM then ''earbuds''
         else if hasDisplay \<and> hasBattery \<and> \<not> hasSIM then
           (let lowerName = toLowerCase name
            in if str_includes lowerName ''watch'' \<or> str_includes lowerName ''smartwatch''
               then ''watch'' else ''tablet'')
         else if hasDisplay \<and> hasBattery \<and> hasSIM then ''phone''
         else if \<not> hasDisplay \<and> \<not> hasBattery \<and> \<not> hasSIM \<and> \<not> hasSound \<and> hasBody
           then ''accessory''
         else ''phone'')"

section \<open>The ScraperAPI layer\<close>

definition isBlockError :: "string \<Rightarrow> bool" where
  \<comment> \<open>\<open>error.message.includes("BLOCK_DETECTED")\<close>\<close>
  "isBlockError msg = str_includes msg ''BLOCK_DETECTED''"

definition fetch_catch :: "string \<Rightarrow> string outcome" where
  \<comment> \<open>the \<open>catch\<close> block of \<open>fetchWithScraperAPI\<close>\<close>
  "fetch_catch msg =
     (if isBlockError msg then Throw msg else Throw (''ScraperAPI request failed: '' @ msg))"

definition fetchWithScraperAPI :: "env \<Rightarrow> state \<Rightarrow> string \<Rightarrow> bool \<Rightarrow> html outcome \<times> state" where
  "fetchWithScraperAPI env st url isErrorSnapshot =
     (let st1 = emit (Charge (creditsUsed st + 1)) (st\<lparr>creditsUsed := creditsUsed st + 1\<rparr>)
      in if creditsUsed st1 \<ge> MAX_CREDITS then (Exit 0, st1)
         else if API_KEY env = [] then
           (Throw ''SCRAPERAPI_KEY environment variable is required'', st1)
         else
           (let response = axios_get env (creditsUsed st1) url;
                st2 = emit (Fetch url response) st1
            in case response of
                 Inl msg \<Rightarrow> (fetch_catch msg, st2)
               | Inr body \<Rightarrow>
                   if isBlocked body then
                     (fetch_catch ''BLOCK_DETECTED: Page contains blocking indicators'', st2)
                   else if SAVE_HTML_SNAPSHOTS env \<and> \<not> isErrorSnapshot then
                     (case fs_error env (length (trace st2)) of
                        Some msg \<Rightarrow> (fetch_catch msg, emit (Snapshot url False) st2)
                      | None \<Rightarrow> (Return body, emit (Snapshot url True) st2))
                   else (Return body, st2)))"

section \<open>The parsing layer\<close>

definition parseBrandListing :: "env \<Rightarrow> html \<Rightarrow> link list" where
  "parseBrandListing env html =
     List.map_filter
       (\<lambda>h. case h of
               None \<Rightarrow> None
             | Some href \<Rightarrow>
                 if endsWith href ''.php'' then
                   (let fullUrl = BASE @ ''/'' @ href
                    in case extractProductId fullUrl of
                         None \<Rightarrow> None
                       | Some productId \<Rightarrow> Some \<lparr>link_url = fullUrl, link_id = productId\<rparr>)
                 else None)
       (makers_hrefs env html)"

fun addRows :: "(string \<times> string) list \<Rightarrow> (string \<times> string) list \<Rightarrow> (string \<times> string) list" where
  "addRows [] obj = obj"
| "addRows ((key, val) # rows) obj =
     addRows rows (if key \<noteq> [] \<and> val \<noteq> [] then AList.update key val obj else obj)"

fun buildSpecs :: "(string \<times> (string \<times> string) list) list \<Rightarrow> specs \<Rightarrow> specs" where
  "buildSpecs [] specs = specs"
| "buildSpecs ((section, rows) # tables) specs =
     buildSpecs tables
       (if section = [] then specs else AList.update section (addRows rows []) specs)"

definition parseProductPage :: "env \<Rightarrow> state \<Rightarrow> html \<Rightarrow> string \<Rightarrow> string \<Rightarrow> product outcome" where
  "parseProductPage env st html url brand =
     (let name = h1_text env html
      in if name = [] then Throw ''Could not extract product name''
         else
           (let image = (case photo_src env html of
                           None \<Rightarrow> None
                         | Some src \<Rightarrow> if src = [] then None else Some src);
                specs = buildSpecs (specs_tables env html) []
            in case extractLaunchYear specs of
                 None \<Rightarrow> Throw ''Could not extract launch year from Launch.Announced''
               | Some launchYear \<Rightarrow>
                   Return \<lparr>p_id = extractProductId url, p_name = name, p_brand = brand,
                           p_category = detectCategory specs name, p_launchYear = launchYear,
                           p_image = image, p_url = url, p_specs = specs,
                           p_scrapedAt = now_iso env (creditsUsed st)\<rparr>))"


section \<open>Incremental scraping logic\<close>

definition pageUrl :: "string \<Rightarrow> string \<Rightarrow> string \<Rightarrow> nat \<Rightarrow> string" where
  "pageUrl slug ty ident page =
     (if page = 1 then BASE @ ''/'' @ slug @ ''-'' @ ty @ ''-'' @ ident @ ''.php''
      else BASE @ ''/'' @ slug @ ''-'' @ ty @ ''-f-'' @ ident @ ''-0-p'' @ numToString page @ ''.php'')"

lemma fetchWithScraperAPI_Return_credits:
  assumes "fetchWithScraperAPI env st url e = (Return body, st1)"
  shows "creditsUsed st1 = creditsUsed st + 1 \<and> creditsUsed st1 < MAX_CREDITS"
  using assms
  by (auto simp: fetchWithScraperAPI_def Let_def emit_def fetch_catch_def
           split: if_splits sum.splits option.splits)

lemma fetch_decreases:
  assumes "(r, st1) = fetchWithScraperAPI env st url e" and "r = Return body"
  shows "MAX_CREDITS - creditsUsed st1 < MAX_CREDITS - creditsUsed st"
proof -
  from assms have "fetchWithScraperAPI env st url e = (Return body, st1)"
    by simp
  from fetchWithScraperAPI_Return_credits [OF this] show ?thesis
    by arith
qed

text \<open>
  The \<open>while (true)\<close> loop of \<open>getBrandProductLinks\<close>.  Every iteration charges a credit
  and a charge at the ceiling ends the process, so the loop ends.
\<close>

function paginate ::
  "env \<Rightarrow> string \<Rightarrow> string \<Rightarrow> string \<Rightarrow> nat \<Rightarrow> link list \<Rightarrow> nat \<Rightarrow> state
   \<Rightarrow> link list outcome \<times> state" where
  "paginate env slug ty ident page allNewLinks consecutiveOldPages st =
     (case fetchWithScraperAPI env st (pageUrl slug ty ident page) False of
        (Exit code, st1) \<Rightarrow> (Exit code, st1)
      | (Throw msg, st1) \<Rightarrow>
          if isBlockError msg then (Throw msg, st1) else (Return allNewLinks, st1)
      | (Return html, st1) \<Rightarrow>
          (let links = parseBrandListing env html
           in if links = [] then (Return allNewLinks, st1)
              else
                (let newLinks = filter (\<lambda>link. seenProducts st1 (link_id link) = None) links;
                     allNewLinks' = allNewLinks @ newLinks
                 in if newLinks = [] then
                      (if consecutiveOldPages + 1 \<ge> 3 then (Return allNewLinks', st1)
                       else paginate env slug ty ident (page + 1) allNewLinks'
                              (consecutiveOldPages + 1) st1)
                    else paginate env slug ty ident (page + 1) allNewLinks' 0 st1)))"
  by pat_completeness auto
termination
  by (relation "measure (\<lambda>(env, slug, ty, ident, page, allNewLinks, consecutiveOldPages, st).
                           MAX_CREDITS - creditsUsed st)")
     (auto intro: fetch_decreases)

definition getBrandProductLinks :: "env \<Rightarrow> state \<Rightarrow> string \<Rightarrow> link list outcome \<times> state" where
  "getBrandProductLinks env st brandUrl =
     (case matchBrandUrl brandUrl of
        None \<Rightarrow> (Throw (''Invalid brand URL: '' @ brandUrl), st)
      | Some (slug, ty, ident) \<Rightarrow> paginate env slug ty ident 1 [] 0 st)"

definition scrape_catch :: "string \<Rightarrow> state \<Rightarrow> product option outcome \<times> state" where
  \<comment> \<open>the \<open>catch\<close> block of \<open>scrapeProduct\<close>\<close>
  "scrape_catch msg st = (if isBlockError msg then (Throw msg, st) else (Return None, st))"

definition ledgerEntry :: "string \<Rightarrow> product \<Rightarrow> jobject" where
  "ledgerEntry productId p =
     [(''id'', JString productId), (''name'', JString (p_name p)),
      (''scrapedAt'', JString (p_scrapedAt p))]"

definition scrapeProduct ::
  "env \<Rightarrow> state \<Rightarrow> string \<Rightarrow> string \<Rightarrow> product option outcome \<times> state" where
  "scrapeProduct env st productUrl brand =
     (case extractProductId productUrl of
        None \<Rightarrow> (Throw (''Could not extract product ID from URL: '' @ productUrl), st)
      | Some productId \<Rightarrow>
          if seenProducts st productId \<noteq> None then (Return None, st)
          else
            (case fetchWithScraperAPI env st productUrl False of
               (Exit code, st1) \<Rightarrow> (Exit code, st1)
             | (Throw msg, st1) \<Rightarrow> scrape_catch msg st1
             | (Return html, st1) \<Rightarrow>
                 (case parseProductPage env st1 html productUrl brand of
                    Exit code \<Rightarrow> (Exit code, st1)
                  | Throw msg \<Rightarrow> scrape_catch msg st1
                  | Return p \<Rightarrow>
                      if p_launchYear p < MIN_LAUNCH_YEAR then (Return None, st1)
                      else
                        (Return (Some p),
                         emit (Record productId (ledgerEntry productId p))
                           (st1\<lparr>seenProducts :=
                                  (seenProducts st1)(productId \<mapsto> ledgerEntry productId p)\<rparr>)))))"

section \<open>The main scraping function\<close>

text \<open>
  The loop over the new links of one category, with its counter \<open>oldProductCount\<close>.  The
  \<open>catch\<close> of the loop body rethrows a block and logs anything else, going on with the
  next link.
\<close>

fun scrapeLinks :: "env \<Rightarrow> string \<Rightarrow> link list \<Rightarrow> nat \<Rightarrow> state \<Rightarrow> unit outcome \<times> state" where
  "scrapeLinks env brand [] oldProductCount st = (Return (), st)"
| "scrapeLinks env brand (link # rest) oldProductCount st =
     (case scrapeProduct env st (link_url link) brand of
        (Exit code, st1) \<Rightarrow> (Exit code, st1)
      | (Throw msg, st1) \<Rightarrow>
          if isBlockError msg then (Throw msg, st1)
          else scrapeLinks env brand rest oldProductCount st1
      | (Return (Some p), st1) \<Rightarrow>
          (case appendScrapedProduct env
                  (st1\<lparr>allScrapedProducts := allScrapedProducts st1 @ [p]\<rparr>) p of
             (Exit code, st2) \<Rightarrow> (Exit code, st2)
           | (Throw msg, st2) \<Rightarrow>
               if isBlockError msg then (Throw msg, st2)
               else scrapeLinks env brand rest oldProductCount st2
           | (Return u, st2) \<Rightarrow> scrapeLinks env brand rest 0 st2)
      | (Return None, st1) \<Rightarrow>
          if oldProductCount + 1 \<ge> 3 then (Return (), st1)
          else scrapeLinks env brand rest (oldProductCount + 1) st1)"

definition category_catch :: "string \<Rightarrow> state \<Rightarrow> unit outcome \<times> state" where
  \<comment> \<open>the \<open>catch\<close> block around one category\<close>
  "category_catch msg st = (if isBlockError msg then (Throw msg, st) else (Return (), st))"

definition processCategory :: "env \<Rightarrow> brandCategory \<Rightarrow> state \<Rightarrow> unit outcome \<times> state" where
  \<comment> \<open>the body of the category loop\<close>
  "processCategory env brandCategory st =
     (case getBrandProductLinks env (emit (Category (bc_name brandCategory)) st)
             (bc_url brandCategory) of
        (Exit code, st1) \<Rightarrow> (Exit code, st1)
      | (Throw msg, st1) \<Rightarrow> category_catch msg st1
      | (Return newLinks, st1) \<Rightarrow>
          if newLinks = [] then (Return (), st1)
          else
            (case scrapeLinks env (bc_name brandCategory) newLinks 0 st1 of
               (Exit code, st2) \<Rightarrow> (Exit code, st2)
             | (Throw msg, st2) \<Rightarrow> category_catch msg st2
             | (Return u, st2) \<Rightarrow>
                 (case saveSeenProducts env st2 of
                    (Throw msg, st3) \<Rightarrow> category_catch msg st3
                  | r \<Rightarrow> r)))"

fun runCategories :: "env \<Rightarrow> brandCategory list \<Rightarrow> state \<Rightarrow> unit outcome \<times> state" where
  "runCategories env [] st = (Return (), st)"
| "runCategories env (brandCategory # rest) st =
     (case processCategory env brandCategory st of
        (Return u, st1) \<Rightarrow> runCategories env rest st1
      | r \<Rightarrow> r)"

definition runIncrementalScraper ::
  "env \<Rightarrow> brandCategory list \<Rightarrow> state \<Rightarrow> unit outcome \<times> state" where
  \<comment> \<open>the category list is \<open>BRAND_CATEGORIES\<close> in the source; it is a parameter here\<close>
  "runIncrementalScraper env categories st =
     (let st0 = st\<lparr>seenProducts := loadSeenProducts st, allScrapedProducts := []\<rparr>
      in case runCategories env categories st0 of
           (Throw msg, st1) \<Rightarrow>
             (case saveSeenProducts env st1 of
                (Return u, st2) \<Rightarrow> (Exit 1, st2)
              | r \<Rightarrow> r)
         | r \<Rightarrow> r)"

section \<open>Execution\<close>

definition initial :: "ledger option \<Rightarrow> (string \<rightharpoonup> product list) \<Rightarrow> state" where
  \<comment> \<open>the process starts: no credit used, the files as they are on disk\<close>
  "initial stateFile outputs =
     \<lparr>creditsUsed = 0, seenProducts = Map.empty, allScrapedProducts = [],
      state_file = stateFile, output_files = outputs, trace = []\<rparr>"

definition main ::
  "env \<Rightarrow> brandCategory list \<Rightarrow> ledger option \<Rightarrow> (string \<rightharpoonup> product list) \<Rightarrow> nat \<times> state" where
  \<comment> \<open>the exit status of the process and the state it leaves\<close>
  "main env categories stateFile outputs =
     (if API_KEY env = [] then (1, initial stateFile outputs)
      else case runIncrementalScraper env categories (initial stateFile outputs) of
             (Return u, st) \<Rightarrow> (0, st)
           | (Throw msg, st) \<Rightarrow> (1, st)
           | (Exit code, st) \<Rightarrow> (code, st))"


section \<open>The rebuild script\<close>

text \<open>
  The second program of the repository rebuilds \<open>seen_products.json\<close> from the brand files:
  for every file of the output directory whose name ends in \<open>.json\<close> and every product in
  it that has a truthy \<open>id\<close>, it stores an entry under that id.  The directory is given as
  the list of its file names with the products each holds.
\<close>

definition rebuildEntry :: "product \<Rightarrow> string \<Rightarrow> jobject" where
  "rebuildEntry p ident =
     [(''id'', JString ident), (''name'', JString (p_name p)), (''brand'', JString (p_brand p)),
      (''category'', JString (p_category p)), (''launchYear'', JNumber (p_launchYear p)),
      (''scrapedAt'', JString (p_scrapedAt p))]"

fun rebuildProducts :: "product list \<Rightarrow> ledger \<Rightarrow> ledger" where
  "rebuildProducts [] seen = seen"
| "rebuildProducts (p # products) seen =
     rebuildProducts products
       (case p_id p of
          None \<Rightarrow> seen
        | Some ident \<Rightarrow> if ident = [] then seen else seen(ident \<mapsto> rebuildEntry p ident))"

fun rebuildFiles :: "(string \<times> product list) list \<Rightarrow> ledger \<Rightarrow> ledger" where
  "rebuildFiles [] seen = seen"
| "rebuildFiles ((file, products) # files) seen =
     rebuildFiles files (if endsWith file ''.json'' then rebuildProducts products seen else seen)"

definition rebuildSeenProducts :: "(string \<times> product list) list \<Rightarrow> ledger" where
  "rebuildSeenProducts files = rebuildFiles files Map.empty"


definition BRAND_CATEGORIES :: "brandCategory list" where
  \<comment> \<open>the categories the source ships with: every entry is a brand name with the URL
      \<open>https://www.gsmarena.com/<name>-phones-<id>.php\<close> and the category \<open>phones\<close>\<close>
  "BRAND_CATEGORIES =
     map (\<lambda>(name, ident).
            \<lparr>bc_name = name,
             bc_url = ''https://www.gsmarena.com/'' @ name @ ''-phones-'' @ ident @ ''.php'',
             bc_category = ''phones''\<rparr>)
       [(''apple'', ''48''), (''samsung'', ''9''), (''xiaomi'', ''80''), (''oppo'', ''82''),
        (''vivo'', ''98''), (''google'', ''107''), (''infinix'', ''119''), (''tecno'', ''120''),
        (''itel'', ''131''), (''nothing'', ''128''), (''motorola'', ''4''), (''realme'', ''118''),
        (''oneplus'', ''95''), (''asus'', ''46''), (''micromax'', ''66''), (''nokia'', ''1''),
        (''lenovo'', ''73''), (''honor'', ''121''), (''sony'', ''7'')]"

section \<open>Scenarios\<close>

text \<open>
  A small catalogue used to run the model: one category \<open>acme\<close> whose first listing page
  links the product \<open>10\<close>, announced in 2024; every other page is empty.
\<close>

definition acme_env :: env where
  "acme_env =
     \<lparr>API_KEY = ''key'', SAVE_HTML_SNAPSHOTS = False,
      axios_get = (\<lambda>n url.
        if url = ''https://www.gsmarena.com/acme-phones-1.php'' then Inr ''listing''
        else if url = ''https://www.gsmarena.com/acme_a-10.php'' then Inr ''item''
        else Inr ''nothing''),
      makers_hrefs = (\<lambda>h. if h = ''listing'' then [Some ''acme_a-10.php''] else []),
      h1_text = (\<lambda>h. if h = ''item'' then ''Acme A'' else []),
      photo_src = (\<lambda>h. None),
      specs_tables = (\<lambda>h. [(''Launch'', [(''Announced'', ''2024, May'')])]),
      now_iso = (\<lambda>n. ''2026-01-01T00:00:00.000Z''),
      fs_error = (\<lambda>k. None)\<rparr>"

definition acme_categories :: "brandCategory list" where
  "acme_categories =
     [\<lparr>bc_name = ''acme'', bc_url = ''https://www.gsmarena.com/acme-phones-1.php'',
       bc_category = ''phones''\<rparr>]"

definition readonly_disk :: "env \<Rightarrow> env" where
  \<comment> \<open>the same surroundings with every file-system operation failing\<close>
  "readonly_disk env = env\<lparr>fs_error := (\<lambda>k. Some ''EACCES: permission denied'')\<rparr>"

section \<open>Auxiliary notions for the proofs\<close>

text \<open>
  \<open>isBlockThrow\<close> recognises a thrown error that every \<open>catch\<close> of the program treats as
  a block; \<open>exitCode\<close> is the status of an outcome that ends the process;
  \<open>blockedFetch\<close> holds of a fetch whose response body contains a block indicator.
  \<open>replay es l\<close> is the mapping obtained from \<open>l\<close> by the assignments \<open>Record\<close> of \<open>es\<close>, in
  order.  \<open>step_ok st out st'\<close> collects what every call of the scraping logic guarantees
  about the effects \<open>new\<close> it adds: the in-memory mapping only grows, by the recorded
  entries; a blocked fetch can only be the last effect, and then the call throws a block;
  below the ceiling, a call ends the process only with status 0 right after the charge
  that reaches \<open>MAX_CREDITS\<close>, and otherwise stays below the ceiling.
  \<open>fetchEvent\<close> holds of the effects of a request, \<open>isSave\<close> of a flush, and
  \<open>frame st st'\<close> says that only requests happened between two states.
\<close>

definition isBlockThrow :: "'a outcome \<Rightarrow> bool" where
  "isBlockThrow out = (case out of Throw msg \<Rightarrow> isBlockError msg | _ \<Rightarrow> False)"

definition exitCode :: "'a outcome \<Rightarrow> nat option" where
  "exitCode out = (case out of Exit code \<Rightarrow> Some code | _ \<Rightarrow> None)"

fun blockedFetch :: "event \<Rightarrow> bool" where
  "blockedFetch (Fetch url (Inr body)) = isBlocked body"
| "blockedFetch e = False"

definition applyEvent :: "event \<Rightarrow> ledger \<Rightarrow> ledger" where
  "applyEvent e l = (case e of Record productId entry \<Rightarrow> l(productId \<mapsto> entry) | _ \<Rightarrow> l)"

definition replay :: "event list \<Rightarrow> ledger \<Rightarrow> ledger" where
  "replay es l = fold applyEvent es l"

definition step_ok :: "state \<Rightarrow> 'a outcome \<Rightarrow> state \<Rightarrow> bool" where
  "step_ok st out st' =
     (\<exists>new. trace st' = trace st @ new \<and>
        seenProducts st' = replay new (seenProducts st) \<and>
        seenProducts st \<subseteq>\<^sub>m seenProducts st' \<and>
        \<not> list_ex blockedFetch (butlast new) \<and>
        (list_ex blockedFetch new \<longrightarrow> isBlockThrow out) \<and>
        (creditsUsed st < MAX_CREDITS \<longrightarrow>
           (case exitCode out of
              Some code \<Rightarrow> code = 0 \<and> creditsUsed st' = MAX_CREDITS \<and> new \<noteq> [] \<and>
                           last new = Charge MAX_CREDITS
            | None \<Rightarrow> creditsUsed st' < MAX_CREDITS)))"



fun fetchEvent :: "event \<Rightarrow> bool" where
  "fetchEvent (Charge n) = True"
| "fetchEvent (Fetch url r) = True"
| "fetchEvent (Snapshot url ok) = True"
| "fetchEvent e = False"

fun isSave :: "event \<Rightarrow> bool" where
  "isSave (Save l ok) = True"
| "isSave e = False"

definition frame :: "state \<Rightarrow> state \<Rightarrow> bool" where
  "frame st st' =
     (\<exists>new. trace st' = trace st @ new \<and> list_all fetchEvent new \<and>
        seenProducts st' = seenProducts st \<and> state_file st' = state_file st \<and>
        output_files st' = output_files st \<and>
        allScrapedProducts st' = allScrapedProducts st)"

definition endless_env :: env where
  \<comment> \<open>every request is answered with the listing page, which links an unseen product\<close>
  "endless_env = acme_env\<lparr>axios_get := (\<lambda>n url. Inr ''listing'')\<rparr>"

text \<open>
  For the pagination: \<open>fetchedUrls\<close> lists the pages requested by \<open>axios.get\<close>, in order.
  \<open>earlyStop\<close> is the early-stop rule in the words of the specification, as a function
  from the counter and the kinds of the pages to come to the number of pages fetched: a
  page with at least one unseen reference resets the counter of consecutive pages without
  unseen references, a page without one increments it, and pagination stops when the
  counter reaches 3 (or at a page that is empty or could not be fetched).  \<open>kindOfPage\<close>
  reads the kind of a page off the response served for it, and \<open>pageBound\<close> is the
  bound used in the proofs.
\<close>

fun fetchedUrls :: "event list \<Rightarrow> string list" where
  "fetchedUrls [] = []"
| "fetchedUrls (Fetch url r # es) = url # fetchedUrls es"
| "fetchedUrls (e # es) = fetchedUrls es"

datatype pageKind = NoListing | SomeUnseen | AllSeen

fun earlyStop :: "nat \<Rightarrow> pageKind list \<Rightarrow> nat option" where
  "earlyStop counter [] = None"
| "earlyStop counter (NoListing # pages) = Some 1"
| "earlyStop counter (SomeUnseen # pages) = map_option Suc (earlyStop 0 pages)"
| "earlyStop counter (AllSeen # pages) =
     (if counter + 1 = 3 then Some 1 else map_option Suc (earlyStop (counter + 1) pages))"

definition kindOfPage :: "env \<Rightarrow> ledger \<Rightarrow> nat \<Rightarrow> string \<Rightarrow> pageKind" where
  "kindOfPage env seen n url =
     (case axios_get env n url of
        Inl msg \<Rightarrow> NoListing
      | Inr body \<Rightarrow>
          if isBlocked body \<or> parseBrandListing env body = [] then NoListing
          else if filter (\<lambda>l. seen (link_id l) = None) (parseBrandListing env body) = [] then AllSeen
          else SomeUnseen)"

definition pageBound :: "nat \<Rightarrow> nat \<Rightarrow> nat \<Rightarrow> nat" where
  "pageBound p page c = (if p \<le> page then page + (3 - c) else p + 3)"

definition streak_env :: env where
  \<comment> \<open>the first and the fourth request are answered with a page linking the unseen
      product \<open>10\<close>, every other request with a page linking the product \<open>20\<close>\<close>
  "streak_env =
     acme_env\<lparr>axios_get := (\<lambda>n url. if n \<in> {1, 4} then Inr ''listing'' else Inr ''known''),
       makers_hrefs := (\<lambda>h. if h = ''listing'' then [Some ''acme_a-10.php'']
                             else [Some ''acme_b-20.php''])\<rparr>"

definition streak_state :: state where
  \<comment> \<open>a run that has loaded a ledger holding the product \<open>20\<close>\<close>
  "streak_state = (initial None Map.empty)\<lparr>seenProducts := [''20'' \<mapsto> []]\<rparr>"

text \<open>
  For a run that finds nothing new: \<open>isRecord\<close> holds of an assignment to the ledger,
  \<open>listingUrls\<close> are the first three listing pages of every category, and
  \<open>listing_only\<close> says that between two states the ledger did not change, at most three
  credits per category were charged and only those listing pages were fetched.
\<close>

fun isRecord :: "event \<Rightarrow> bool" where
  "isRecord (Record productId entry) = True"
| "isRecord e = False"

definition listingUrls :: "brandCategory list \<Rightarrow> string list" where
  "listingUrls categories =
     concat (map (\<lambda>bc. case matchBrandUrl (bc_url bc) of
                          None \<Rightarrow> []
                        | Some (slug, ty, ident) \<Rightarrow> map (pageUrl slug ty ident) [1, 2, 3])
                 categories)"

definition listing_only :: "brandCategory list \<Rightarrow> state \<Rightarrow> state \<Rightarrow> bool" where
  "listing_only categories st st' =
     (seenProducts st' = seenProducts st \<and>
      creditsUsed st' \<le> creditsUsed st + 3 * length categories \<and>
      (\<exists>new. trace st' = trace st @ new \<and>
             set (fetchedUrls new) \<subseteq> set (listingUrls categories) \<and>
             \<not> list_ex isRecord new))"

definition acme_ledger :: ledger where
  \<comment> \<open>the ledger a first run over the catalogue \<open>acme\<close> leaves behind\<close>
  "acme_ledger =
     [''10'' \<mapsto> [(''id'', JString ''10''), (''name'', JString ''Acme A''),
        (''scrapedAt'', JString ''2026-01-01T00:00:00.000Z'')]]"

text \<open>
  For the persisted file: \<open>persisted\<close> is the mapping in \<open>seen_products.json\<close>, \<open>fieldNames\<close>
  the names of the fields of an entry, and \<open>rebuiltFields\<close> holds of a mapping whose
  entries all have the six fields the rebuild script writes.
\<close>

fun fieldNames :: "jobject option \<Rightarrow> string list" where
  "fieldNames None = []"
| "fieldNames (Some entry) = map fst entry"

definition persisted :: "state \<Rightarrow> ledger" where
  "persisted st = (case state_file st of Some l \<Rightarrow> l | None \<Rightarrow> Map.empty)"

definition rebuiltFields :: "ledger \<Rightarrow> bool" where
  "rebuiltFields l =
     (\<forall>k entry. l k = Some entry \<longrightarrow>
        map fst entry = [''id'', ''name'', ''brand'', ''category'', ''launchYear'', ''scrapedAt''])"

definition broken_category :: brandCategory where
  \<comment> \<open>a category whose listing URL names a type the pattern does not know\<close>
  "broken_category =
     \<lparr>bc_name = ''broken'', bc_url = ''https://www.gsmarena.com/acme-laptops-1.php'',
      bc_category = ''laptops''\<rparr>"

definition failing_env :: env where
  \<comment> \<open>the listing links four products; the pages of the first three have no name, the
      fourth is the product of 2024\<close>
  "failing_env =
     acme_env\<lparr>axios_get := (\<lambda>n url.
        if url = ''https://www.gsmarena.com/acme-phones-1.php'' then Inr ''listing''
        else if url = ''https://www.gsmarena.com/acme_d-14.php'' then Inr ''item''
        else Inr ''nothing''),
       makers_hrefs := (\<lambda>h. if h = ''listing''
          then [Some ''acme_a-11.php'', Some ''acme_b-12.php'', Some ''acme_c-13.php'',
                Some ''acme_d-14.php'']
          else [])\<rparr>"

text \<open>
  For the history of the ledger within a run: \<open>accepted env productId entry pre\<close> says
  that the effects \<open>pre\<close> end with a fetch of a product page (and at most its debug
  snapshot) that returned an unblocked body from which \<open>parseProductPage\<close> extracts a
  product that passes the year filter, and that \<open>entry\<close> is the entry of that product.
  \<open>records_ok\<close> says that every assignment to the ledger among the effects is made for an
  id absent from the mapping at that point and for an item accepted just before;
  \<open>saves_ok\<close> that every flush writes the mapping of that point; \<open>ledger_ok\<close> puts both
  together for the effects between two states, and \<open>quietEvent\<close> holds of an effect that
  neither assigns nor flushes.
\<close>

definition accepted :: "env \<Rightarrow> string \<Rightarrow> jobject \<Rightarrow> event list \<Rightarrow> bool" where
  "accepted env productId entry pre =
     (\<exists>pre' url body snap brand st1 p.
        pre = pre' @ Fetch url (Inr body) # snap \<and>
        (snap = [] \<or> snap = [Snapshot url True]) \<and>
        \<not> isBlocked body \<and>
        extractProductId url = Some productId \<and>
        parseProductPage env st1 body url brand = Return p \<and>
        MIN_LAUNCH_YEAR \<le> p_launchYear p \<and>
        entry = ledgerEntry productId p)"

definition records_ok :: "env \<Rightarrow> ledger \<Rightarrow> event list \<Rightarrow> bool" where
  "records_ok env l new =
     (\<forall>pre productId entry post.
        new = pre @ Record productId entry # post \<longrightarrow>
          replay pre l productId = None \<and> accepted env productId entry pre)"

definition saves_ok :: "ledger \<Rightarrow> event list \<Rightarrow> bool" where
  "saves_ok l new =
     (\<forall>pre m ok post. new = pre @ Save m ok # post \<longrightarrow> m = replay pre l)"

definition ledger_ok :: "env \<Rightarrow> state \<Rightarrow> state \<Rightarrow> bool" where
  "ledger_ok env st st' =
     (\<exists>new. trace st' = trace st @ new \<and>
        seenProducts st' = replay new (seenProducts st) \<and>
        records_ok env (seenProducts st) new \<and> saves_ok (seenProducts st) new)"

definition quietEvent :: "event \<Rightarrow> bool" where
  "quietEvent e = (\<not> isRecord e \<and> \<not> isSave e)"

definition mixed_env :: env where
  \<comment> \<open>the listing links the products \<open>10\<close> (announced in 2024), \<open>20\<close> and \<open>30\<close>
      (announced in 2019)\<close>
  "mixed_env =
     acme_env\<lparr>axios_get := (\<lambda>n url.
         if url = ''https://www.gsmarena.com/acme-phones-1.php'' then Inr ''listing''
         else if url = ''https://www.gsmarena.com/acme_a-10.php'' then Inr ''item''
         else if url = ''https://www.gsmarena.com/acme_c-30.php'' then Inr ''old item''
         else Inr ''nothing''),
       makers_hrefs := (\<lambda>h. if h = ''listing''
          then [Some ''acme_a-10.php'', Some ''acme_b-20.php'', Some ''acme_c-30.php'']
          else []),
       h1_text := (\<lambda>h. if h = ''item'' then ''Acme A''
                         else if h = ''old item'' then ''Acme C'' else []),
       specs_tables := (\<lambda>h. if h = ''old item''
          then [(''Launch'', [(''Announced'', ''2019, May'')])]
          else [(''Launch'', [(''Announced'', ''2024, May'')])])\<rparr>"

definition known_ledger :: ledger where
  \<comment> \<open>a ledger that holds the product \<open>20\<close>\<close>
  "known_ledger =
     [''20'' \<mapsto> [(''id'', JString ''20''), (''name'', JString ''Acme B''),
        (''scrapedAt'', JString ''2025-06-01T00:00:00.000Z'')]]"

section \<open>Basic facts\<close>

lemma trace_emit [simp]: "trace (emit e st) = trace st @ [e]"
  and creditsUsed_emit [simp]: "creditsUsed (emit e st) = creditsUsed st"
  and seenProducts_emit [simp]: "seenProducts (emit e st) = seenProducts st"
  and state_file_emit [simp]: "state_file (emit e st) = state_file st"
  and output_files_emit [simp]: "output_files (emit e st) = output_files st"
  and allScrapedProducts_emit [simp]: "allScrapedProducts (emit e st) = allScrapedProducts st"
  by (simp_all add: emit_def)

section \<open>The flush of the ledger\<close>

lemma stale_run:
  "fst (main (readonly_disk acme_env) acme_categories None Map.empty) = 0 \<and>
   seenProducts (snd (main (readonly_disk acme_env) acme_categories None Map.empty)) ''10''
     \<noteq> None \<and>
   (case state_file (snd (main (readonly_disk acme_env) acme_categories None Map.empty)) of
      None \<Rightarrow> True | Some l \<Rightarrow> False)"
  by code_simp

text \<open>
  Claim C10.  \<open>saveSeenProducts\<close> never throws: it always returns, and it leaves the
  in-memory mapping as it was.  When the write fails the file keeps its old content and
  the only effect is the logged failure.  The run goes on: there is a run that ends with
  status 0 although the product it recorded in memory never reached the file.
\<close>

theorem saveSeenProducts_never_raises:
  "fst (saveSeenProducts env st) = Return () \<and>
   seenProducts (snd (saveSeenProducts env st)) = seenProducts st \<and>
   (fs_error env (length (trace st)) \<noteq> None \<longrightarrow>
      state_file (snd (saveSeenProducts env st)) = state_file st \<and>
      trace (snd (saveSeenProducts env st)) = trace st @ [Save (seenProducts st) False]) \<and>
   (\<exists>e cs pid.
      fst (main e cs None Map.empty) = 0 \<and>
      seenProducts (snd (main e cs None Map.empty)) pid \<noteq> None \<and>
      state_file (snd (main e cs None Map.empty)) = None)"
proof -
  have run: "\<exists>e cs pid.
      fst (main e cs None Map.empty) = 0 \<and>
      seenProducts (snd (main e cs None Map.empty)) pid \<noteq> None \<and>
      state_file (snd (main e cs None Map.empty)) = None"
    using stale_run by (auto split: option.splits)
  have "fst (saveSeenProducts env st) = Return () \<and>
   seenProducts (snd (saveSeenProducts env st)) = seenProducts st \<and>
   (fs_error env (length (trace st)) \<noteq> None \<longrightarrow>
      state_file (snd (saveSeenProducts env st)) = state_file st \<and>
      trace (snd (saveSeenProducts env st)) = trace st @ [Save (seenProducts st) False])"
    by (simp add: saveSeenProducts_def split: option.splits)
  with run show ?thesis by blast
qed

theorem saveSeenProducts_never_raises_witness:
  "fs_error (readonly_disk acme_env) (length (trace (initial None Map.empty))) \<noteq> None \<and>
   fst (saveSeenProducts (readonly_disk acme_env) (initial None Map.empty)) = Return () \<and>
   state_file (snd (saveSeenProducts (readonly_disk acme_env) (initial None Map.empty))) = None"
  using saveSeenProducts_never_raises [of "readonly_disk acme_env" "initial None Map.empty"]
  by (simp add: readonly_disk_def initial_def)


section \<open>What every call guarantees\<close>

lemma replay_append: "replay (xs @ ys) l = replay ys (replay xs l)"
  by (simp add: replay_def)

lemma replay_simps [simp]:
  "replay [] l = l"
  "replay (Record productId entry # es) l = replay es (l(productId \<mapsto> entry))"
  "replay (Charge n # es) l = replay es l"
  "replay (Fetch url r # es) l = replay es l"
  "replay (Snapshot url ok # es) l = replay es l"
  "replay (Save m ok # es) l = replay es l"
  "replay (Append p ok # es) l = replay es l"
  "replay (Category name # es) l = replay es l"
  by (simp_all add: replay_def applyEvent_def)

lemma isBlockError_literal: "isBlockError ''BLOCK_DETECTED: Page contains blocking indicators''"
  by (simp add: isBlockError_def str_includes_def)

lemma isBlockThrow_simps [simp]:
  "isBlockThrow (Return x) = False"
  "isBlockThrow (Exit c) = False"
  "isBlockThrow (Throw m) = isBlockError m"
  by (simp_all add: isBlockThrow_def)

lemma exitCode_simps [simp]:
  "exitCode (Return x) = None"
  "exitCode (Exit c) = Some c"
  "exitCode (Throw m) = None"
  by (simp_all add: exitCode_def)

lemma step_ok_refl: "exitCode out = None \<Longrightarrow> trace st' = trace st \<Longrightarrow> seenProducts st' = seenProducts st
   \<Longrightarrow> creditsUsed st' = creditsUsed st \<Longrightarrow> step_ok st out st'"
  by (simp add: step_ok_def)

lemma step_ok_relabel:
  assumes "step_ok st out st'" and "exitCode out' = exitCode out"
    and "isBlockThrow out \<Longrightarrow> isBlockThrow out'"
  shows "step_ok st out' st'"
  using assms unfolding step_ok_def by auto

lemma step_ok_trans:
  assumes 1: "step_ok st out1 st1" and nb: "\<not> isBlockThrow out1" and ne: "exitCode out1 = None"
    and 2: "step_ok st1 out2 st2"
  shows "step_ok st out2 st2"
proof -
  from 1 obtain new1 where n1: "trace st1 = trace st @ new1"
    "seenProducts st1 = replay new1 (seenProducts st)"
    "seenProducts st \<subseteq>\<^sub>m seenProducts st1"
    "list_ex blockedFetch new1 \<longrightarrow> isBlockThrow out1"
    "creditsUsed st < MAX_CREDITS \<longrightarrow> creditsUsed st1 < MAX_CREDITS"
    using ne unfolding step_ok_def by auto
  from 2 obtain new2 where n2: "trace st2 = trace st1 @ new2"
    "seenProducts st2 = replay new2 (seenProducts st1)"
    "seenProducts st1 \<subseteq>\<^sub>m seenProducts st2"
    "\<not> list_ex blockedFetch (butlast new2)"
    "list_ex blockedFetch new2 \<longrightarrow> isBlockThrow out2"
    "creditsUsed st1 < MAX_CREDITS \<longrightarrow>
           (case exitCode out2 of
              Some code \<Rightarrow> code = 0 \<and> creditsUsed st2 = MAX_CREDITS \<and> new2 \<noteq> [] \<and>
                           last new2 = Charge MAX_CREDITS
            | None \<Rightarrow> creditsUsed st2 < MAX_CREDITS)"
    unfolding step_ok_def by auto
  from n1(4) nb have free1: "\<not> list_ex blockedFetch new1" by blast
  have a: "trace st2 = trace st @ (new1 @ new2)" using n1(1) n2(1) by simp
  have b: "seenProducts st2 = replay (new1 @ new2) (seenProducts st)"
    using n1(2) n2(2) by (simp add: replay_append)
  have c: "seenProducts st \<subseteq>\<^sub>m seenProducts st2"
    using n1(3) n2(3) by (rule map_le_trans)
  have d: "\<not> list_ex blockedFetch (butlast (new1 @ new2))"
    using free1 n2(4) by (auto simp: butlast_append list_ex_iff dest: in_set_butlastD)
  have e: "list_ex blockedFetch (new1 @ new2) \<longrightarrow> isBlockThrow out2"
    using free1 n2(5) by (auto simp: list_ex_iff)
  have f: "creditsUsed st < MAX_CREDITS \<longrightarrow>
           (case exitCode out2 of
              Some code \<Rightarrow> code = 0 \<and> creditsUsed st2 = MAX_CREDITS \<and> new1 @ new2 \<noteq> [] \<and>
                           last (new1 @ new2) = Charge MAX_CREDITS
            | None \<Rightarrow> creditsUsed st2 < MAX_CREDITS)"
    using n1(5) n2(6) by (auto split: option.splits)
  from a b c d e f show ?thesis unfolding step_ok_def by blast
qed

lemma fetch_step_ok:
  assumes "fetchWithScraperAPI env st url e = (out, st')"
  shows "step_ok st out st'"
proof (cases "creditsUsed st + 1 \<ge> MAX_CREDITS")
  case True
  with assms have "out = Exit 0" "st' = emit (Charge (creditsUsed st + 1)) (st\<lparr>creditsUsed := creditsUsed st + 1\<rparr>)"
    by (auto simp: fetchWithScraperAPI_def Let_def)
  then show ?thesis using True
    by (auto simp: step_ok_def)
next
  case False
  show ?thesis
    using assms False
    by (auto simp: fetchWithScraperAPI_def Let_def step_ok_def fetch_catch_def isBlockError_literal
             split: if_splits sum.splits option.splits)
qed


lemma paginate_step_ok:
  "paginate env slug ty ident page acc c st = (out, st') \<Longrightarrow> step_ok st out st'"
proof (induction env slug ty ident page acc c st rule: paginate.induct)
  case (1 env slug ty ident page allNewLinks consecutiveOldPages st)
  obtain r st1 where f: "fetchWithScraperAPI env st (pageUrl slug ty ident page) False = (r, st1)"
    by (cases "fetchWithScraperAPI env st (pageUrl slug ty ident page) False")
  note ok1 = fetch_step_ok [OF f]
  show ?case
  proof (cases r)
    case (Exit code)
    with "1.prems" f have "out = Exit code" "st' = st1" by auto
    with ok1 Exit show ?thesis by (auto intro: step_ok_relabel)
  next
    case (Throw msg)
    show ?thesis
    proof (cases "isBlockError msg")
      case True
      with "1.prems" f Throw have "out = Throw msg" "st' = st1" by auto
      with ok1 Throw show ?thesis by (auto intro: step_ok_relabel)
    next
      case False
      with "1.prems" f Throw have "out = Return allNewLinks" "st' = st1" by auto
      with ok1 Throw False show ?thesis by (auto intro: step_ok_relabel)
    qed
  next
    case (Return html)
    have nb: "\<not> isBlockThrow r" "exitCode r = None" using Return by simp_all
    let ?links = "parseBrandListing env html"
    let ?new = "filter (\<lambda>link. seenProducts st1 (link_id link) = None) ?links"
    show ?thesis
    proof (cases "?links = []")
      case True
      with "1.prems" f Return have "out = Return allNewLinks" "st' = st1" by auto
      with ok1 Return show ?thesis by (auto intro: step_ok_relabel)
    next
      case nonempty: False
      show ?thesis
      proof (cases "?new = []")
        case True
        show ?thesis
        proof (cases "consecutiveOldPages + 1 \<ge> 3")
          case True
          with "1.prems" f Return nonempty \<open>?new = []\<close>
          have "out = Return allNewLinks" "st' = st1" by (auto simp: Let_def)
          with ok1 Return show ?thesis by (auto intro: step_ok_relabel)
        next
          case False
          with "1.prems" f Return nonempty \<open>?new = []\<close>
          have "paginate env slug ty ident (page + 1) (allNewLinks @ ?new) (consecutiveOldPages + 1) st1 = (out, st')"
            by (auto simp: Let_def)
          from "1.IH"(1) [OF f [symmetric] Return refl nonempty refl refl True False this]
          have "step_ok st1 out st'" .
          from step_ok_trans [OF ok1 nb this] show ?thesis .
        qed
      next
        case False
        with "1.prems" f Return nonempty
        have "paginate env slug ty ident (page + 1) (allNewLinks @ ?new) 0 st1 = (out, st')"
          by (auto simp: Let_def)
        from "1.IH"(2) [OF f [symmetric] Return refl nonempty refl refl False this]
        have "step_ok st1 out st'" .
        from step_ok_trans [OF ok1 nb this] show ?thesis .
      qed
    qed
  qed
qed


lemma getBrandProductLinks_step_ok:
  assumes "getBrandProductLinks env st brandUrl = (out, st')"
  shows "step_ok st out st'"
proof (cases "matchBrandUrl brandUrl")
  case None
  with assms have "out = Throw (''Invalid brand URL: '' @ brandUrl)" "st' = st"
    by (auto simp: getBrandProductLinks_def)
  then show ?thesis by (simp add: step_ok_refl)
next
  case (Some m)
  obtain slug ty ident where "m = (slug, ty, ident)" by (cases m)
  with assms Some have "paginate env slug ty ident 1 [] 0 st = (out, st')"
    by (simp add: getBrandProductLinks_def)
  then show ?thesis by (rule paginate_step_ok)
qed

lemma parse_not_exit: "parseProductPage env st html url brand \<noteq> Exit code"
  by (simp add: parseProductPage_def Let_def split: option.splits)

lemma scrape_catch_step_ok:
  assumes "step_ok st (Throw msg::'a outcome) st1" and "scrape_catch msg st1 = (out, st')"
  shows "step_ok st out st'"
  using assms
  by (auto simp: scrape_catch_def split: if_splits intro: step_ok_relabel)

lemma record_step_ok:
  assumes "seenProducts st pid = None"
  shows "step_ok st (Return x)
           (emit (Record pid entry) (st\<lparr>seenProducts := (seenProducts st)(pid \<mapsto> entry)\<rparr>))"
  using assms by (auto simp: step_ok_def map_le_def)

lemma fetch_seenProducts:
  "fetchWithScraperAPI env st url e = (out, st') \<Longrightarrow> seenProducts st' = seenProducts st"
  by (auto simp: fetchWithScraperAPI_def Let_def split: if_splits sum.splits option.splits)

lemma scrapeProduct_step_ok:
  assumes "scrapeProduct env st productUrl brand = (out, st')"
  shows "step_ok st out st'"
proof (cases "extractProductId productUrl")
  case None
  with assms show ?thesis by (auto simp: scrapeProduct_def intro: step_ok_refl)
next
  case (Some productId)
  show ?thesis
  proof (cases "seenProducts st productId = None")
    case False
    with assms Some show ?thesis by (auto simp: scrapeProduct_def intro: step_ok_refl)
  next
    case unseen: True
    obtain r st1 where f: "fetchWithScraperAPI env st productUrl False = (r, st1)"
      by (cases "fetchWithScraperAPI env st productUrl False")
    note ok1 = fetch_step_ok [OF f]
    show ?thesis
    proof (cases r)
      case (Exit code)
      with assms Some unseen f have "out = Exit code" "st' = st1"
        by (auto simp: scrapeProduct_def)
      with ok1 Exit show ?thesis by (auto intro: step_ok_relabel)
    next
      case (Throw msg)
      with assms Some unseen f have "scrape_catch msg st1 = (out, st')"
        by (auto simp: scrapeProduct_def)
      with ok1 Throw show ?thesis by (auto intro: scrape_catch_step_ok)
    next
      case (Return html)
      have nb: "\<not> isBlockThrow r" "exitCode r = None" using Return by simp_all
      show ?thesis
      proof (cases "parseProductPage env st1 html productUrl brand")
        case (Exit code)
        then show ?thesis by (simp add: parse_not_exit)
      next
        case (Throw msg)
        with assms Some unseen f Return have c: "scrape_catch msg st1 = (out, st')"
          by (auto simp: scrapeProduct_def)
        have "step_ok st1 (Throw msg :: unit outcome) st1" by (simp add: step_ok_refl)
        from scrape_catch_step_ok [OF this c] have "step_ok st1 out st'" .
        from step_ok_trans [OF ok1 nb this] show ?thesis .
      next
        case p: (Return p)
        show ?thesis
        proof (cases "p_launchYear p < MIN_LAUNCH_YEAR")
          case True
          with assms Some unseen f Return p have "out = Return None" "st' = st1"
            by (auto simp: scrapeProduct_def)
          with ok1 Return show ?thesis by (auto intro: step_ok_relabel)
        next
          case False
          with assms Some unseen f Return p
          have o: "out = Return (Some p)"
            and s: "st' = emit (Record productId (ledgerEntry productId p))
                           (st1\<lparr>seenProducts :=
                                  (seenProducts st1)(productId \<mapsto> ledgerEntry productId p)\<rparr>)"
            by (auto simp: scrapeProduct_def)
          from unseen fetch_seenProducts [OF f] have "seenProducts st1 productId = None" by simp
          from record_step_ok [OF this] have "step_ok st1 out st'" unfolding o s .
          from step_ok_trans [OF ok1 nb this] show ?thesis .
        qed
      qed
    qed
  qed
qed

lemma appendScrapedProduct_step_ok:
  assumes "appendScrapedProduct env st p = (out, st')"
  shows "step_ok st out st'" and "out = Return ()"
  using assms
  by (auto simp: appendScrapedProduct_def step_ok_def Let_def split: option.splits)

lemma saveSeenProducts_step_ok:
  assumes "saveSeenProducts env st = (out, st')"
  shows "step_ok st out st'" and "out = Return ()"
  using assms
  by (auto simp: saveSeenProducts_def step_ok_def Let_def split: option.splits)


lemma scrapeLinks_step_ok:
  "scrapeLinks env brand links cnt st = (out, st') \<Longrightarrow> step_ok st out st'"
proof (induction links arbitrary: cnt st)
  case Nil
  then show ?case by (auto intro: step_ok_refl)
next
  case (Cons link rest)
  obtain r st1 where sp: "scrapeProduct env st (link_url link) brand = (r, st1)"
    by (cases "scrapeProduct env st (link_url link) brand")
  note ok1 = scrapeProduct_step_ok [OF sp]
  show ?case
  proof (cases r)
    case (Exit code)
    with Cons.prems sp have "out = Exit code" "st' = st1" by auto
    with ok1 Exit show ?thesis by (auto intro: step_ok_relabel)
  next
    case (Throw msg)
    show ?thesis
    proof (cases "isBlockError msg")
      case True
      with Cons.prems sp Throw have "out = Throw msg" "st' = st1" by auto
      with ok1 Throw show ?thesis by (auto intro: step_ok_relabel)
    next
      case False
      with Cons.prems sp Throw have "scrapeLinks env brand rest cnt st1 = (out, st')" by auto
      from Cons.IH [OF this] have "step_ok st1 out st'" .
      from step_ok_trans [OF ok1 _ _ this] Throw False show ?thesis by simp
    qed
  next
    case (Return res)
    have nb: "\<not> isBlockThrow r" "exitCode r = None" using Return by simp_all
    show ?thesis
    proof (cases res)
      case None
      show ?thesis
      proof (cases "cnt + 1 \<ge> 3")
        case True
        with Cons.prems sp Return None have "out = Return ()" "st' = st1" by auto
        with ok1 Return show ?thesis by (auto intro: step_ok_relabel)
      next
        case False
        with Cons.prems sp Return None
        have "scrapeLinks env brand rest (cnt + 1) st1 = (out, st')" by auto
        from Cons.IH [OF this] have "step_ok st1 out st'" .
        from step_ok_trans [OF ok1 nb this] show ?thesis .
      qed
    next
      case (Some p)
      let ?st1' = "st1\<lparr>allScrapedProducts := allScrapedProducts st1 @ [p]\<rparr>"
      obtain a st2 where ap: "appendScrapedProduct env ?st1' p = (a, st2)"
        by (cases "appendScrapedProduct env ?st1' p")
      note ok2 = appendScrapedProduct_step_ok [OF ap]
      have "step_ok st1 (Return () :: unit outcome) ?st1'" by (simp add: step_ok_refl)
      from step_ok_trans [OF this _ _ ok2(1)] have ok12: "step_ok st1 a st2" by simp
      from Cons.prems sp Return Some ap ok2(2)
      have "scrapeLinks env brand rest 0 st2 = (out, st')" by auto
      from Cons.IH [OF this] have ok3: "step_ok st2 out st'" .
      from ok2(2) have nb2: "\<not> isBlockThrow a" "exitCode a = None" by simp_all
      from step_ok_trans [OF ok1 nb step_ok_trans [OF ok12 nb2 ok3]] show ?thesis .
    qed
  qed
qed

lemma category_catch_step_ok:
  assumes "step_ok st (Throw msg::'a outcome) st1" and "category_catch msg st1 = (out, st')"
  shows "step_ok st out st'"
  using assms
  by (auto simp: category_catch_def split: if_splits intro: step_ok_relabel)

lemma processCategory_step_ok:
  assumes "processCategory env bc st = (out, st')"
  shows "step_ok st out st'"
proof -
  let ?st0 = "emit (Category (bc_name bc)) st"
  have ok0: "step_ok st (Return () :: unit outcome) ?st0"
    by (simp add: step_ok_def)
  have nb0: "\<not> isBlockThrow (Return () :: unit outcome)" "exitCode (Return () :: unit outcome) = None"
    by simp_all
  obtain r st1 where g: "getBrandProductLinks env ?st0 (bc_url bc) = (r, st1)"
    by (cases "getBrandProductLinks env ?st0 (bc_url bc)")
  note ok1 = step_ok_trans [OF ok0 nb0 getBrandProductLinks_step_ok [OF g]]
  show ?thesis
  proof (cases r)
    case (Exit code)
    with assms g have "out = Exit code" "st' = st1" by (auto simp: processCategory_def)
    with ok1 Exit show ?thesis by (auto intro: step_ok_relabel)
  next
    case (Throw msg)
    with assms g have "category_catch msg st1 = (out, st')" by (auto simp: processCategory_def)
    with ok1 Throw show ?thesis by (auto intro: category_catch_step_ok)
  next
    case (Return newLinks)
    have nb: "\<not> isBlockThrow r" "exitCode r = None" using Return by simp_all
    show ?thesis
    proof (cases "newLinks = []")
      case True
      with assms g Return have "out = Return ()" "st' = st1" by (auto simp: processCategory_def)
      with ok1 Return show ?thesis by (auto intro: step_ok_relabel)
    next
      case False
      obtain r2 st2 where sl: "scrapeLinks env (bc_name bc) newLinks 0 st1 = (r2, st2)"
        by (cases "scrapeLinks env (bc_name bc) newLinks 0 st1")
      note ok2 = step_ok_trans [OF ok1 nb scrapeLinks_step_ok [OF sl]]
      show ?thesis
      proof (cases r2)
        case (Exit code)
        with assms g Return False sl have "out = Exit code" "st' = st2"
          by (auto simp: processCategory_def)
        with ok2 Exit show ?thesis by (auto intro: step_ok_relabel)
      next
        case (Throw msg)
        with assms g Return False sl have "category_catch msg st2 = (out, st')"
          by (auto simp: processCategory_def)
        with ok2 Throw show ?thesis by (auto intro: category_catch_step_ok)
      next
        case r2: (Return u)
        obtain r3 st3 where sv: "saveSeenProducts env st2 = (r3, st3)"
          by (cases "saveSeenProducts env st2")
        note ok3 = saveSeenProducts_step_ok [OF sv]
        from assms g Return False sl r2 sv ok3(2) have "out = Return ()" "st' = st3"
          by (auto simp: processCategory_def)
        with step_ok_trans [OF ok2 _ _ ok3(1)] r2 ok3(2) show ?thesis by simp
      qed
    qed
  qed
qed

lemma runCategories_step_ok:
  "runCategories env cats st = (out, st') \<Longrightarrow> step_ok st out st'"
proof (induction cats arbitrary: st)
  case Nil
  then show ?case by (auto intro: step_ok_refl)
next
  case (Cons bc rest)
  obtain r st1 where pc: "processCategory env bc st = (r, st1)"
    by (cases "processCategory env bc st")
  note ok1 = processCategory_step_ok [OF pc]
  show ?case
  proof (cases r)
    case (Return u)
    with Cons.prems pc have "runCategories env rest st1 = (out, st')" by simp
    from Cons.IH [OF this] have "step_ok st1 out st'" .
    from step_ok_trans [OF ok1 _ _ this] Return show ?thesis by simp
  next
    case (Throw msg)
    with Cons.prems pc have "out = r" "st' = st1" by simp_all
    with ok1 show ?thesis by simp
  next
    case (Exit code)
    with Cons.prems pc have "out = r" "st' = st1" by simp_all
    with ok1 show ?thesis by simp
  qed
qed


section \<open>Block propagation\<close>

lemma main_cases:
  assumes "main env cats sf outs = (code, st)" and "API_KEY env \<noteq> []"
  obtains out st1 where
    "runCategories env cats
       ((initial sf outs)\<lparr>seenProducts := loadSeenProducts (initial sf outs), allScrapedProducts := []\<rparr>) = (out, st1)"
    and "case out of
           Return u \<Rightarrow> code = 0 \<and> st = st1
         | Exit c \<Rightarrow> code = c \<and> st = st1
         | Throw msg \<Rightarrow> code = 1 \<and> st = snd (saveSeenProducts env st1)"
proof -
  let ?st0 = "(initial sf outs)\<lparr>seenProducts := loadSeenProducts (initial sf outs), allScrapedProducts := []\<rparr>"
  obtain out st1 where rc: "runCategories env cats ?st0 = (out, st1)"
    by (cases "runCategories env cats ?st0")
  have "fst (saveSeenProducts env st1) = Return ()"
    by (simp add: saveSeenProducts_def split: option.splits)
  then obtain st2 where sv: "saveSeenProducts env st1 = (Return (), st2)"
    by (cases "saveSeenProducts env st1") auto
  have "case out of
           Return u \<Rightarrow> code = 0 \<and> st = st1
         | Exit c \<Rightarrow> code = c \<and> st = st1
         | Throw msg \<Rightarrow> code = 1 \<and> st = snd (saveSeenProducts env st1)"
    using assms rc sv
    by (cases out) (auto simp: main_def runIncrementalScraper_def Let_def)
  with rc show thesis by (rule that)
qed

lemma initial_simps [simp]:
  "trace (initial sf outs) = []"
  "creditsUsed (initial sf outs) = 0"
  "loadSeenProducts (initial sf outs) = (case sf of Some l \<Rightarrow> l | None \<Rightarrow> Map.empty)"
  "state_file (initial sf outs) = sf"
  by (simp_all add: initial_def loadSeenProducts_def)








section \<open>Calls that only perform requests\<close>

lemma frame_refl: "frame st st"
  by (simp add: frame_def)

lemma frame_trans: "frame st st1 \<Longrightarrow> frame st1 st2 \<Longrightarrow> frame st st2"
  unfolding frame_def by (elim exE conjE, rule_tac x = "new @ newa" in exI) simp

lemma fetch_frame:
  "fetchWithScraperAPI env st url e = (out, st') \<Longrightarrow> frame st st'"
  by (auto simp: fetchWithScraperAPI_def Let_def frame_def emit_def
           split: if_splits sum.splits option.splits)

lemma paginate_frame:
  "paginate env slug ty ident page acc c st = (out, st') \<Longrightarrow> frame st st'"
proof (induction env slug ty ident page acc c st rule: paginate.induct)
  case (1 env slug ty ident page allNewLinks consecutiveOldPages st)
  obtain r st1 where f: "fetchWithScraperAPI env st (pageUrl slug ty ident page) False = (r, st1)"
    by (cases "fetchWithScraperAPI env st (pageUrl slug ty ident page) False")
  note fr1 = fetch_frame [OF f]
  show ?case
  proof (cases r)
    case (Exit code)
    with "1.prems" f have "st' = st1" by auto
    with fr1 show ?thesis by simp
  next
    case (Throw msg)
    with "1.prems" f have "st' = st1" by (auto split: if_splits)
    with fr1 show ?thesis by simp
  next
    case (Return html)
    let ?links = "parseBrandListing env html"
    let ?new = "filter (\<lambda>link. seenProducts st1 (link_id link) = None) ?links"
    show ?thesis
    proof (cases "?links = []")
      case True
      with "1.prems" f Return have "st' = st1" by auto
      with fr1 show ?thesis by simp
    next
      case nonempty: False
      show ?thesis
      proof (cases "?new = []")
        case True
        show ?thesis
        proof (cases "consecutiveOldPages + 1 \<ge> 3")
          case True
          with "1.prems" f Return nonempty \<open>?new = []\<close>
          have "st' = st1" by (auto simp: Let_def)
          with fr1 show ?thesis by simp
        next
          case False
          with "1.prems" f Return nonempty \<open>?new = []\<close>
          have "paginate env slug ty ident (page + 1) (allNewLinks @ ?new) (consecutiveOldPages + 1) st1 = (out, st')"
            by (auto simp: Let_def)
          from "1.IH"(1) [OF f [symmetric] Return refl nonempty refl refl True False this]
          have "frame st1 st'" .
          from frame_trans [OF fr1 this] show ?thesis .
        qed
      next
        case False
        with "1.prems" f Return nonempty
        have "paginate env slug ty ident (page + 1) (allNewLinks @ ?new) 0 st1 = (out, st')"
          by (auto simp: Let_def)
        from "1.IH"(2) [OF f [symmetric] Return refl nonempty refl refl False this]
        have "frame st1 st'" .
        from frame_trans [OF fr1 this] show ?thesis .
      qed
    qed
  qed
qed

lemma getBrandProductLinks_frame:
  assumes "getBrandProductLinks env st brandUrl = (out, st')"
  shows "frame st st'"
proof (cases "matchBrandUrl brandUrl")
  case None
  with assms have "st' = st" by (auto simp: getBrandProductLinks_def)
  then show ?thesis by (simp add: frame_refl)
next
  case (Some m)
  obtain slug ty ident where "m = (slug, ty, ident)" by (cases m)
  with assms Some have "paginate env slug ty ident 1 [] 0 st = (out, st')"
    by (simp add: getBrandProductLinks_def)
  then show ?thesis by (rule paginate_frame)
qed

lemma endless_listing:
  "parseBrandListing endless_env ''listing'' =
     [\<lparr>link_url = ''https://www.gsmarena.com/acme_a-10.php'', link_id = ''10''\<rparr>]"
  by (simp add: parseBrandListing_def endless_env_def acme_env_def List.map_filter_def
      endsWith_def extractProductId_def BASE_def isDigit_def)

lemma endless_fetch:
  assumes "fetchWithScraperAPI endless_env st url False = (out, st')"
  shows "out = Return ''listing'' \<or> (\<exists>code. out = Exit code)"
proof -
  have "\<not> isBlocked ''listing''" by code_simp
  with assms show ?thesis
    by (auto simp: fetchWithScraperAPI_def Let_def endless_env_def acme_env_def
             split: if_splits)
qed

lemma endless_paginate:
  "paginate endless_env slug ty ident page acc c st = (out, st') \<Longrightarrow>
   seenProducts st ''10'' = None \<Longrightarrow> \<exists>code. out = Exit code"
proof (induction endless_env slug ty ident page acc c st rule: paginate.induct)
  case (1 slug ty ident page allNewLinks consecutiveOldPages st)
  obtain r st1 where f: "fetchWithScraperAPI endless_env st (pageUrl slug ty ident page) False = (r, st1)"
    by (cases "fetchWithScraperAPI endless_env st (pageUrl slug ty ident page) False")
  from fetch_seenProducts [OF f] "1.prems"(2) have unseen: "seenProducts st1 ''10'' = None" by simp
  from endless_fetch [OF f] show ?case
  proof
    assume r: "r = Return ''listing''"
    let ?links = "parseBrandListing endless_env ''listing''"
    let ?new = "filter (\<lambda>link. seenProducts st1 (link_id link) = None) ?links"
    have nonempty: "?links \<noteq> []" by (simp add: endless_listing)
    have new: "?new \<noteq> []" using unseen by (simp add: endless_listing)
    with "1.prems"(1) f r nonempty
    have "paginate endless_env slug ty ident (page + 1) (allNewLinks @ ?new) 0 st1 = (out, st')"
      by (auto simp: Let_def)
    from "1.hyps"(2) [OF f [symmetric] r refl nonempty refl refl new this unseen]
    show ?thesis .
  next
    assume "\<exists>code. r = Exit code"
    with "1.prems"(1) f show ?thesis by auto
  qed
qed


section \<open>The credit ceiling\<close>

lemma endless_run:
  obtains st where "main endless_env acme_categories None Map.empty = (0, st)"
    and "creditsUsed st = MAX_CREDITS" and "\<not> list_ex isSave (trace st)"
proof -
  let ?st0 = "(initial None Map.empty)\<lparr>seenProducts := loadSeenProducts (initial None Map.empty),
                allScrapedProducts := []\<rparr>"
  let ?bc = "\<lparr>bc_name = ''acme'', bc_url = ''https://www.gsmarena.com/acme-phones-1.php'',
       bc_category = ''phones''\<rparr>"
  let ?st1 = "emit (Category ''acme'') ?st0"
  have m: "matchBrandUrl ''https://www.gsmarena.com/acme-phones-1.php'' = Some (''acme'', ''phones'', ''1'')"
    by code_simp
  obtain out st where p: "paginate endless_env ''acme'' ''phones'' ''1'' 1 [] 0 ?st1 = (out, st)"
    by (cases "paginate endless_env ''acme'' ''phones'' ''1'' 1 [] 0 ?st1")
  have "seenProducts ?st1 ''10'' = None" by simp
  from endless_paginate [OF p this] obtain code where out: "out = Exit code" by blast
  have less: "creditsUsed ?st1 < MAX_CREDITS" by (simp add: MAX_CREDITS_def)
  from paginate_step_ok [OF p] out less have code: "code = 0" and cr: "creditsUsed st = MAX_CREDITS"
    unfolding step_ok_def by auto
  from paginate_frame [OF p] obtain new where "trace st = trace ?st1 @ new" "list_all fetchEvent new"
    unfolding frame_def by blast
  then have tr: "\<not> list_ex isSave (trace st)"
    by (auto simp: list_ex_iff list_all_iff elim!: isSave.elims)
  have "processCategory endless_env ?bc ?st0 = (Exit 0, st)"
    using p out code m by (simp add: processCategory_def getBrandProductLinks_def)
  then have "runCategories endless_env acme_categories ?st0 = (Exit 0, st)"
    by (simp add: acme_categories_def)
  then have "main endless_env acme_categories None Map.empty = (0, st)"
    by (simp add: main_def runIncrementalScraper_def endless_env_def acme_env_def)
  from this cr tr show thesis by (rule that)
qed

text \<open>
  The claim C1 as stated fails: in the scenario \<open>endless_env\<close> the counter reaches
  \<open>MAX_CREDITS\<close>, the process exits with status 0, and no flush happened in the run.
\<close>

theorem credit_ceiling_no_fatal_status_counterexample:
  "fst (main endless_env acme_categories None Map.empty) = 0 \<and>
   creditsUsed (snd (main endless_env acme_categories None Map.empty)) = MAX_CREDITS \<and>
   \<not> list_ex isSave (trace (snd (main endless_env acme_categories None Map.empty)))"
proof -
  from endless_run obtain st where "main endless_env acme_categories None Map.empty = (0, st)"
    and "creditsUsed st = MAX_CREDITS" and "\<not> list_ex isSave (trace st)" by blast
  then show ?thesis by simp
qed

text \<open>
  Claim C1, amended.  When the counter reaches \<open>MAX_CREDITS\<close> in a run, the process exits
  with status 0 (the \<open>process.exit(0)\<close> of \<open>fetchWithScraperAPI\<close>), the counter is exactly
  \<open>MAX_CREDITS\<close>, and after the charge that reached the ceiling the run performs no fetch
  and no further charge.
\<close>

theorem credit_ceiling_exit:
  assumes run: "main env categories stateFile outputs = (code, st)"
    and ceiling: "MAX_CREDITS \<le> creditsUsed st"
  shows "code = 0 \<and> creditsUsed st = MAX_CREDITS \<and>
         (\<exists>pre post. trace st = pre @ Charge MAX_CREDITS # post \<and> \<not> list_ex fetchEvent post)"
proof -
  have key: "API_KEY env \<noteq> []"
  proof
    assume "API_KEY env = []"
    with run have "st = initial stateFile outputs" by (simp add: main_def)
    with ceiling show False by (simp add: MAX_CREDITS_def)
  qed
  let ?st0 = "(initial stateFile outputs)\<lparr>seenProducts := loadSeenProducts (initial stateFile outputs),
          allScrapedProducts := []\<rparr>"
  from main_cases [OF run key] obtain out st1 where
    rc: "runCategories env categories ?st0 = (out, st1)"
    and fin: "case out of
           Return u \<Rightarrow> code = 0 \<and> st = st1
         | Exit c \<Rightarrow> code = c \<and> st = st1
         | Throw msg \<Rightarrow> code = 1 \<and> st = snd (saveSeenProducts env st1)"
    by blast
  have less: "creditsUsed ?st0 < MAX_CREDITS" by (simp add: MAX_CREDITS_def)
  from runCategories_step_ok [OF rc] less obtain new where
    new: "trace st1 = new"
      "case exitCode out of
              Some code \<Rightarrow> code = 0 \<and> creditsUsed st1 = MAX_CREDITS \<and> new \<noteq> [] \<and>
                           last new = Charge MAX_CREDITS
            | None \<Rightarrow> creditsUsed st1 < MAX_CREDITS"
    unfolding step_ok_def by auto
  have sv: "creditsUsed (snd (saveSeenProducts env st1)) = creditsUsed st1"
    by (simp add: saveSeenProducts_def split: option.splits)
  show ?thesis
  proof (cases out)
    case (Return u)
    with fin new(2) ceiling show ?thesis by simp
  next
    case (Throw msg)
    with fin new(2) ceiling sv show ?thesis by simp
  next
    case (Exit c)
    with fin new have "code = 0" "creditsUsed st = MAX_CREDITS" "trace st \<noteq> []"
      "last (trace st) = Charge MAX_CREDITS" by simp_all
    moreover from this have "trace st = butlast (trace st) @ Charge MAX_CREDITS # []"
      by (metis append_butlast_last_id)
    ultimately show ?thesis by (intro conjI exI [of _ "butlast (trace st)"] exI [of _ "[]"]) simp_all
  qed
qed

theorem credit_ceiling_exit_witness:
  "MAX_CREDITS \<le> creditsUsed (snd (main endless_env acme_categories None Map.empty)) \<and>
   fst (main endless_env acme_categories None Map.empty) = 0 \<and>
   (\<exists>pre post. trace (snd (main endless_env acme_categories None Map.empty)) =
                 pre @ Charge MAX_CREDITS # post \<and> \<not> list_ex fetchEvent post)"
proof -
  from endless_run obtain st where run: "main endless_env acme_categories None Map.empty = (0, st)"
    and cr: "creditsUsed st = MAX_CREDITS" by blast
  from cr have "MAX_CREDITS \<le> creditsUsed st" by simp
  from credit_ceiling_exit [OF run this] run cr show ?thesis by simp
qed


section \<open>Pagination and its early stop\<close>

lemma fetchedUrls_append: "fetchedUrls (xs @ ys) = fetchedUrls xs @ fetchedUrls ys"
  by (induction xs rule: fetchedUrls.induct) simp_all

lemma fetch_effects:
  assumes "fetchWithScraperAPI env st url e = (out, st1)"
  shows "\<exists>new. trace st1 = trace st @ new \<and> (\<forall>u r. Fetch u r \<in> set new \<longrightarrow> u = url) \<and>
           creditsUsed st1 = creditsUsed st + 1 \<and> seenProducts st1 = seenProducts st \<and>
           (\<forall>body. out = Return body \<longrightarrow> axios_get env (creditsUsed st + 1) url = Inr body)"
  using assms
  by (auto simp: fetchWithScraperAPI_def Let_def emit_def fetch_catch_def
           split: if_splits sum.splits option.splits)

lemma paginate_bound:
  assumes "paginate env slug ty ident page acc c st = (out, st')"
    and "seenProducts st = seen"
    and "\<forall>q\<ge>p. \<forall>body. axios_get env (base + q) (pageUrl slug ty ident q) = Inr body \<longrightarrow>
           filter (\<lambda>l. seen (link_id l) = None) (parseBrandListing env body) = []"
    and "c < 3"
    and "creditsUsed st + 1 = base + page"
  shows "\<exists>new. trace st' = trace st @ new \<and>
           (\<forall>url r. Fetch url r \<in> set new \<longrightarrow>
              (\<exists>q. page \<le> q \<and> q < pageBound p page c \<and> url = pageUrl slug ty ident q)) \<and>
           creditsUsed st' + page \<le> creditsUsed st + pageBound p page c"
  using assms
proof (induction env slug ty ident page acc c st rule: paginate.induct)
  case (1 env slug ty ident page allNewLinks consecutiveOldPages st)
  let ?url = "pageUrl slug ty ident page"
  obtain r st1 where f: "fetchWithScraperAPI env st ?url False = (r, st1)"
    by (cases "fetchWithScraperAPI env st ?url False")
  from fetch_effects [OF f] obtain new1 where
    n1: "trace st1 = trace st @ new1" "\<forall>u r. Fetch u r \<in> set new1 \<longrightarrow> u = ?url"
      "creditsUsed st1 = creditsUsed st + 1" "seenProducts st1 = seenProducts st"
      "\<forall>body. r = Return body \<longrightarrow> axios_get env (creditsUsed st + 1) ?url = Inr body"
    by blast
  have pb: "page < pageBound p page consecutiveOldPages"
    using "1.prems"(4) by (auto simp: pageBound_def)
  have stop: ?case if "st' = st1"
  proof -
    have "\<forall>url r. Fetch url r \<in> set new1 \<longrightarrow>
              (\<exists>q. page \<le> q \<and> q < pageBound p page consecutiveOldPages \<and> url = pageUrl slug ty ident q)"
      using n1(2) pb by blast
    moreover have "creditsUsed st1 + page \<le> creditsUsed st + pageBound p page consecutiveOldPages"
      using n1(3) pb by simp
    ultimately show ?thesis using n1(1) that by blast
  qed
  have continue: ?case
    if rec: "paginate env slug ty ident (page + 1) acc' c' st1 = (out, st')"
      and ih: "\<exists>new. trace st' = trace st1 @ new \<and>
           (\<forall>url r. Fetch url r \<in> set new \<longrightarrow>
              (\<exists>q. page + 1 \<le> q \<and> q < pageBound p (page + 1) c' \<and> url = pageUrl slug ty ident q)) \<and>
           creditsUsed st' + (page + 1) \<le> creditsUsed st1 + pageBound p (page + 1) c'"
      and le: "pageBound p (page + 1) c' \<le> pageBound p page consecutiveOldPages"
    for acc' c'
  proof -
    from ih obtain new2 where n2: "trace st' = trace st1 @ new2"
      "\<forall>url r. Fetch url r \<in> set new2 \<longrightarrow>
              (\<exists>q. page + 1 \<le> q \<and> q < pageBound p (page + 1) c' \<and> url = pageUrl slug ty ident q)"
      "creditsUsed st' + (page + 1) \<le> creditsUsed st1 + pageBound p (page + 1) c'"
      by blast
    have a: "trace st' = trace st @ (new1 @ new2)" using n1(1) n2(1) by simp
    have b: "\<forall>url r. Fetch url r \<in> set (new1 @ new2) \<longrightarrow>
              (\<exists>q. page \<le> q \<and> q < pageBound p page consecutiveOldPages \<and> url = pageUrl slug ty ident q)"
    proof (intro allI impI)
      fix url r assume "Fetch url r \<in> set (new1 @ new2)"
      then consider "Fetch url r \<in> set new1" | "Fetch url r \<in> set new2" by auto
      then show "\<exists>q. page \<le> q \<and> q < pageBound p page consecutiveOldPages \<and> url = pageUrl slug ty ident q"
      proof cases
        case 1
        with n1(2) pb show ?thesis by blast
      next
        case 2
        with n2(2) obtain q where "page + 1 \<le> q" "q < pageBound p (page + 1) c'"
          "url = pageUrl slug ty ident q" by blast
        with le have "page \<le> q \<and> q < pageBound p page consecutiveOldPages \<and> url = pageUrl slug ty ident q"
          by simp
        then show ?thesis by blast
      qed
    qed
    have c: "creditsUsed st' + page \<le> creditsUsed st + pageBound p page consecutiveOldPages"
      using n1(3) n2(3) le by simp
    from a b c show ?thesis by blast
  qed
  show ?case
  proof (cases r)
    case (Exit code)
    with "1.prems"(1) f have "st' = st1" by auto
    then show ?thesis by (rule stop)
  next
    case (Throw msg)
    with "1.prems"(1) f have "st' = st1" by (auto split: if_splits)
    then show ?thesis by (rule stop)
  next
    case (Return html)
    let ?links = "parseBrandListing env html"
    let ?new = "filter (\<lambda>link. seenProducts st1 (link_id link) = None) ?links"
    have seen1: "seenProducts st1 = seen" using n1(4) "1.prems"(2) by simp
    from n1(5) Return "1.prems"(5) have served: "axios_get env (base + page) ?url = Inr html" by simp
    have base1: "creditsUsed st1 + 1 = base + (page + 1)" using n1(3) "1.prems"(5) by simp
    show ?thesis
    proof (cases "?links = []")
      case True
      with "1.prems"(1) f Return have "st' = st1" by auto
      then show ?thesis by (rule stop)
    next
      case nonempty: False
      show ?thesis
      proof (cases "?new = []")
        case True
        show ?thesis
        proof (cases "consecutiveOldPages + 1 \<ge> 3")
          case True
          with "1.prems"(1) f Return nonempty \<open>?new = []\<close>
          have "st' = st1" by (auto simp: Let_def)
          then show ?thesis by (rule stop)
        next
          case False
          with "1.prems"(1) f Return nonempty \<open>?new = []\<close>
          have rec: "paginate env slug ty ident (page + 1) (allNewLinks @ ?new) (consecutiveOldPages + 1) st1 = (out, st')"
            by (auto simp: Let_def)
          from False have c': "consecutiveOldPages + 1 < 3" by simp
          note ih = "1.IH"(1) [OF f [symmetric] Return refl nonempty refl refl True False rec seen1 "1.prems"(3) c' base1]
          have "pageBound p (page + 1) (consecutiveOldPages + 1) \<le> pageBound p page consecutiveOldPages"
            using c' by (auto simp: pageBound_def)
          from continue [OF rec ih this] show ?thesis .
        qed
      next
        case False
        with "1.prems"(1) f Return nonempty
        have rec: "paginate env slug ty ident (page + 1) (allNewLinks @ ?new) 0 st1 = (out, st')"
          by (auto simp: Let_def)
        note ih = "1.IH"(2) [OF f [symmetric] Return refl nonempty refl refl False rec seen1 "1.prems"(3) _ base1]
        have "\<not> p \<le> page"
        proof
          assume "p \<le> page"
          with "1.prems"(3) served have "filter (\<lambda>l. seen (link_id l) = None) ?links = []"
            by blast
          with False seen1 show False by simp
        qed
        then have "pageBound p (page + 1) 0 \<le> pageBound p page consecutiveOldPages"
          by (auto simp: pageBound_def)
        from continue [OF rec _ this] ih show ?thesis by simp
      qed
    qed
  qed
qed

lemma fetch_plain:
  assumes "API_KEY env \<noteq> []" and "\<not> SAVE_HTML_SNAPSHOTS env"
    and "creditsUsed st + 1 < MAX_CREDITS"
  shows "fetchWithScraperAPI env st url False =
           ((case axios_get env (creditsUsed st + 1) url of
               Inl msg \<Rightarrow> fetch_catch msg
             | Inr body \<Rightarrow>
                 if isBlocked body
                 then Throw ''BLOCK_DETECTED: Page contains blocking indicators''
                 else Return body),
            st\<lparr>creditsUsed := creditsUsed st + 1,
               trace := trace st @ [Charge (creditsUsed st + 1),
                          Fetch url (axios_get env (creditsUsed st + 1) url)]\<rparr>)"
  using assms
  by (auto simp: fetchWithScraperAPI_def Let_def emit_def fetch_catch_def isBlockError_literal
           split: sum.splits)

lemma fetch_catch_Throw: "\<exists>m. fetch_catch msg = Throw m"
  by (simp add: fetch_catch_def)

lemma paginate_refines:
  assumes "earlyStop c kinds = Some n"
    and "\<forall>i<length kinds. kinds ! i =
           kindOfPage env seen (creditsUsed st + 1 + i) (pageUrl slug ty ident (page + i))"
    and "seenProducts st = seen" and "API_KEY env \<noteq> []" and "\<not> SAVE_HTML_SNAPSHOTS env"
    and "creditsUsed st + length kinds < MAX_CREDITS" and "c < 3"
    and "paginate env slug ty ident page acc c st = (out, st')"
  shows "creditsUsed st' = creditsUsed st + n \<and>
         (\<exists>new. trace st' = trace st @ new \<and>
                 fetchedUrls new = map (pageUrl slug ty ident) [page ..< page + n])"
  using assms
proof (induction kinds arbitrary: c n page acc st)
  case Nil
  then show ?case by simp
next
  case (Cons k ks)
  let ?url = "pageUrl slug ty ident page"
  let ?resp = "axios_get env (creditsUsed st + 1) ?url"
  let ?st1 = "st\<lparr>creditsUsed := creditsUsed st + 1,
               trace := trace st @ [Charge (creditsUsed st + 1), Fetch ?url ?resp]\<rparr>"
  let ?r = "case ?resp of
               Inl msg \<Rightarrow> fetch_catch msg
             | Inr body \<Rightarrow>
                 if isBlocked body
                 then Throw ''BLOCK_DETECTED: Page contains blocking indicators''
                 else Return body"
  from Cons.prems(6) have budget: "creditsUsed st + 1 < MAX_CREDITS" by simp
  have f: "fetchWithScraperAPI env st ?url False = (?r, ?st1)"
    by (rule fetch_plain [OF Cons.prems(4,5) budget])
  from Cons.prems(2) [rule_format, of 0]
  have k: "k = kindOfPage env seen (creditsUsed st + 1) ?url" by simp
  have ks: "\<forall>i<length ks. ks ! i =
           kindOfPage env seen (creditsUsed ?st1 + 1 + i) (pageUrl slug ty ident (page + 1 + i))"
  proof (intro allI impI)
    fix i assume "i < length ks"
    with Cons.prems(2) [rule_format, of "Suc i"]
    show "ks ! i = kindOfPage env seen (creditsUsed ?st1 + 1 + i) (pageUrl slug ty ident (page + 1 + i))"
      by simp
  qed
  have budget1: "creditsUsed ?st1 + length ks < MAX_CREDITS" using Cons.prems(6) by simp
  have seen1: "seenProducts ?st1 = seen" using Cons.prems(3) by simp
  have one: ?case if "st' = ?st1" "n = 1"
    using that by simp
  have more: ?case
    if rec: "paginate env slug ty ident (page + 1) acc' c' ?st1 = (out, st')"
      and es: "earlyStop c' ks = Some n'" and n: "n = Suc n'" and c': "c' < 3"
    for acc' c' n'
  proof -
    from Cons.IH [OF es ks seen1 Cons.prems(4,5) budget1 c' rec]
    obtain new where cr: "creditsUsed st' = creditsUsed ?st1 + n'"
      and tr: "trace st' = trace ?st1 @ new"
      and fu: "fetchedUrls new = map (pageUrl slug ty ident) [page + 1 ..< page + 1 + n']"
      by blast
    have "trace st' = trace st @ ([Charge (creditsUsed st + 1), Fetch ?url ?resp] @ new)"
      using tr by simp
    moreover have "fetchedUrls ([Charge (creditsUsed st + 1), Fetch ?url ?resp] @ new)
                     = map (pageUrl slug ty ident) [page ..< page + n]"
      using fu n by (simp add: upt_rec [of page])
    ultimately show ?thesis using cr n by auto
  qed
  show ?case
  proof (cases ?resp)
    case (Inl msg)
    with k have "k = NoListing" by (simp add: kindOfPage_def)
    with Cons.prems(1) have n: "n = 1" by simp
    obtain m where "fetch_catch msg = Throw m" using fetch_catch_Throw by blast
    with Cons.prems(8) f Inl have "st' = ?st1" by (auto split: if_splits)
    from one [OF this n] show ?thesis .
  next
    case (Inr body)
    show ?thesis
    proof (cases "isBlocked body")
      case True
      with k Inr have "k = NoListing" by (simp add: kindOfPage_def)
      with Cons.prems(1) have n: "n = 1" by simp
      from Cons.prems(8) f Inr True have "st' = ?st1" by (auto split: if_splits)
      from one [OF this n] show ?thesis .
    next
      case nb: False
      with Inr have r: "?r = Return body" by simp
      let ?links = "parseBrandListing env body"
      let ?new = "filter (\<lambda>link. seenProducts ?st1 (link_id link) = None) ?links"
      show ?thesis
      proof (cases "?links = []")
        case True
        with k Inr have "k = NoListing" by (simp add: kindOfPage_def)
        with Cons.prems(1) have n: "n = 1" by simp
        from Cons.prems(8) f r True have "st' = ?st1" by auto
        from one [OF this n] show ?thesis .
      next
        case nonempty: False
        show ?thesis
        proof (cases "?new = []")
          case True
          with k Inr nb nonempty seen1 have kk: "k = AllSeen" by (simp add: kindOfPage_def)
          show ?thesis
          proof (cases "c + 1 \<ge> 3")
            case True
            with Cons.prems(7) have "c + 1 = 3" by simp
            with Cons.prems(1) kk have n: "n = 1" by simp
            from Cons.prems(8) f r nonempty \<open>?new = []\<close> True have "st' = ?st1"
              by (auto simp: Let_def)
            from one [OF this n] show ?thesis .
          next
            case False
            with Cons.prems(8) f r nonempty \<open>?new = []\<close>
            have rec: "paginate env slug ty ident (page + 1) (acc @ ?new) (c + 1) ?st1 = (out, st')"
              by (auto simp: Let_def)
            from False Cons.prems(1) kk obtain n' where
              "earlyStop (c + 1) ks = Some n'" "n = Suc n'" by auto
            from more [OF rec this] False show ?thesis by simp
          qed
        next
          case False
          with k Inr nb nonempty seen1 have kk: "k = SomeUnseen" by (simp add: kindOfPage_def)
          from False Cons.prems(8) f r nonempty
          have rec: "paginate env slug ty ident (page + 1) (acc @ ?new) 0 ?st1 = (out, st')"
            by (auto simp: Let_def)
          from Cons.prems(1) kk obtain n' where
            "earlyStop 0 ks = Some n'" "n = Suc n'" by auto
          from more [OF rec this] show ?thesis by simp
        qed
      qed
    qed
  qed
qed

lemma fetchedUrls_set: "url \<in> set (fetchedUrls es) \<longleftrightarrow> (\<exists>r. Fetch url r \<in> set es)"
  by (induction es rule: fetchedUrls.induct) auto

text \<open>
  Claim C7.  The pagination of one category follows the early-stop rule: when the pages
  served are of the kinds \<open>kinds\<close> and the budget suffices for them, the number of pages
  fetched is the one \<open>earlyStop\<close> computes from a counter that starts at zero, is reset by
  a page with an unseen reference and stops the pagination when it reaches 3; the pages
  fetched are the pages \<open>1\<close> to \<open>n\<close> in order.  Moreover, when no page from page \<open>p\<close> on
  yields an unseen reference, at most \<open>p + 2\<close> pages are charged and every page fetched
  has a number of at most \<open>p + 2\<close>: with unseen items only on pages 1 and 2 (\<open>p = 3\<close>)
  pagination stops no later than page 5.
\<close>

theorem pagination_early_stop:
  assumes run: "getBrandProductLinks env st brandUrl = (out, st')"
    and url: "matchBrandUrl brandUrl = Some (slug, ty, ident)"
  shows "(API_KEY env \<noteq> [] \<and> \<not> SAVE_HTML_SNAPSHOTS env \<and>
          creditsUsed st + length kinds < MAX_CREDITS \<and>
          (\<forall>i<length kinds. kinds ! i =
             kindOfPage env (seenProducts st) (creditsUsed st + 1 + i)
               (pageUrl slug ty ident (1 + i))) \<and>
          earlyStop 0 kinds = Some n \<longrightarrow>
            creditsUsed st' = creditsUsed st + n \<and>
            fetchedUrls (drop (length (trace st)) (trace st')) =
              map (pageUrl slug ty ident) [1 ..< 1 + n]) \<and>
         (1 \<le> p \<and>
          (\<forall>q\<ge>p. \<forall>body. axios_get env (creditsUsed st + q) (pageUrl slug ty ident q) = Inr body \<longrightarrow>
             (\<forall>l\<in>set (parseBrandListing env body). seenProducts st (link_id l) \<noteq> None)) \<longrightarrow>
            creditsUsed st' \<le> creditsUsed st + (p + 2) \<and>
            (\<forall>u\<in>set (fetchedUrls (drop (length (trace st)) (trace st'))).
               \<exists>q. 1 \<le> q \<and> q \<le> p + 2 \<and> u = pageUrl slug ty ident q))"
proof (intro conjI impI)
  from run url have pg: "paginate env slug ty ident 1 [] 0 st = (out, st')"
    by (simp add: getBrandProductLinks_def)
  {
    assume h: "API_KEY env \<noteq> [] \<and> \<not> SAVE_HTML_SNAPSHOTS env \<and>
          creditsUsed st + length kinds < MAX_CREDITS \<and>
          (\<forall>i<length kinds. kinds ! i =
             kindOfPage env (seenProducts st) (creditsUsed st + 1 + i)
               (pageUrl slug ty ident (1 + i))) \<and>
          earlyStop 0 kinds = Some n"
    from h have "earlyStop 0 kinds = Some n"
      and "\<forall>i<length kinds. kinds ! i =
             kindOfPage env (seenProducts st) (creditsUsed st + 1 + i)
               (pageUrl slug ty ident (1 + i))"
      and "API_KEY env \<noteq> []" and "\<not> SAVE_HTML_SNAPSHOTS env"
      and "creditsUsed st + length kinds < MAX_CREDITS" by blast+
    from paginate_refines [OF this(1,2) refl this(3,4,5) _ pg]
    obtain new where a: "creditsUsed st' = creditsUsed st + n"
      and b: "trace st' = trace st @ new"
      and c: "fetchedUrls new = map (pageUrl slug ty ident) [1 ..< 1 + n]"
      by auto
    from a show "creditsUsed st' = creditsUsed st + n" .
    from b c show "fetchedUrls (drop (length (trace st)) (trace st')) =
              map (pageUrl slug ty ident) [1 ..< 1 + n]" by simp
  }
  {
    assume h: "1 \<le> p \<and>
          (\<forall>q\<ge>p. \<forall>body. axios_get env (creditsUsed st + q) (pageUrl slug ty ident q) = Inr body \<longrightarrow>
             (\<forall>l\<in>set (parseBrandListing env body). seenProducts st (link_id l) \<noteq> None))"
    then have old: "\<forall>q\<ge>p. \<forall>body. axios_get env (creditsUsed st + q) (pageUrl slug ty ident q) = Inr body \<longrightarrow>
           filter (\<lambda>l. seenProducts st (link_id l) = None) (parseBrandListing env body) = []"
      by (auto simp: filter_empty_conv)
    from h have pb: "pageBound p 1 0 = p + 3" by (auto simp: pageBound_def)
    from paginate_bound [OF pg refl old _ refl] pb
    obtain new where b: "trace st' = trace st @ new"
      and c: "\<forall>url r. Fetch url r \<in> set new \<longrightarrow>
              (\<exists>q. 1 \<le> q \<and> q < p + 3 \<and> url = pageUrl slug ty ident q)"
      and a: "creditsUsed st' + 1 \<le> creditsUsed st + (p + 3)"
      by auto
    from a show "creditsUsed st' \<le> creditsUsed st + (p + 2)" by simp
    show "\<forall>u\<in>set (fetchedUrls (drop (length (trace st)) (trace st'))).
               \<exists>q. 1 \<le> q \<and> q \<le> p + 2 \<and> u = pageUrl slug ty ident q"
    proof
      fix u assume "u \<in> set (fetchedUrls (drop (length (trace st)) (trace st')))"
      with b obtain r where "Fetch u r \<in> set new" by (auto simp: fetchedUrls_set)
      with c obtain q where "1 \<le> q" "q < p + 3" "u = pageUrl slug ty ident q" by blast
      then have "1 \<le> q \<and> q \<le> p + 2 \<and> u = pageUrl slug ty ident q" by simp
      then show "\<exists>q. 1 \<le> q \<and> q \<le> p + 2 \<and> u = pageUrl slug ty ident q" ..
    qed
  }
qed

lemma streak_kinds:
  "\<forall>i<length [SomeUnseen, AllSeen, AllSeen, SomeUnseen, AllSeen, AllSeen, AllSeen].
     [SomeUnseen, AllSeen, AllSeen, SomeUnseen, AllSeen, AllSeen, AllSeen] ! i =
       kindOfPage streak_env (seenProducts streak_state) (creditsUsed streak_state + 1 + i)
         (pageUrl ''acme'' ''phones'' ''1'' (1 + i))"
proof -
  have l: "parseBrandListing streak_env ''listing'' =
     [\<lparr>link_url = ''https://www.gsmarena.com/acme_a-10.php'', link_id = ''10''\<rparr>]"
    by (simp add: parseBrandListing_def streak_env_def acme_env_def List.map_filter_def
      endsWith_def extractProductId_def BASE_def isDigit_def)
  have k: "parseBrandListing streak_env ''known'' =
     [\<lparr>link_url = ''https://www.gsmarena.com/acme_b-20.php'', link_id = ''20''\<rparr>]"
    by (simp add: parseBrandListing_def streak_env_def acme_env_def List.map_filter_def
      endsWith_def extractProductId_def BASE_def isDigit_def)
  have b: "\<not> isBlocked ''listing''" "\<not> isBlocked ''known''" by code_simp+
  have a: "\<And>n url. axios_get streak_env n url = (if n \<in> {1, 4} then Inr ''listing'' else Inr ''known'')"
    by (simp add: streak_env_def acme_env_def)
  have fresh: "\<And>n url. n \<in> {1, 4} \<Longrightarrow> kindOfPage streak_env (seenProducts streak_state) n url = SomeUnseen"
    by (simp add: kindOfPage_def a l b streak_state_def)
  have stale: "\<And>n url. n \<notin> {1, 4} \<Longrightarrow> kindOfPage streak_env (seenProducts streak_state) n url = AllSeen"
    by (simp add: kindOfPage_def a k b streak_state_def)
  have c: "creditsUsed streak_state = 0" by (simp add: streak_state_def)
  show ?thesis
    by (simp add: c fresh stale less_Suc_eq numeral_eq_Suc all_conj_distrib)
qed

lemma streak_old:
  "\<forall>q\<ge>5. \<forall>body. axios_get streak_env (creditsUsed streak_state + q) (pageUrl ''acme'' ''phones'' ''1'' q) = Inr body \<longrightarrow>
     (\<forall>l\<in>set (parseBrandListing streak_env body). seenProducts streak_state (link_id l) \<noteq> None)"
proof (intro allI impI)
  fix q :: nat and body
  assume q: "5 \<le> q"
    and "axios_get streak_env (creditsUsed streak_state + q) (pageUrl ''acme'' ''phones'' ''1'' q) = Inr body"
  with q have "body = ''known''"
    by (auto simp: streak_env_def acme_env_def)
  then show "\<forall>l\<in>set (parseBrandListing streak_env body). seenProducts streak_state (link_id l) \<noteq> None"
    by (simp add: parseBrandListing_def streak_env_def acme_env_def List.map_filter_def
      endsWith_def extractProductId_def BASE_def isDigit_def streak_state_def)
qed

theorem pagination_early_stop_witness:
  "earlyStop 0 [SomeUnseen, AllSeen, AllSeen, SomeUnseen, AllSeen, AllSeen, AllSeen] = Some 7 \<and>
   creditsUsed (snd (getBrandProductLinks streak_env streak_state
                       ''https://www.gsmarena.com/acme-phones-1.php'')) = 7 \<and>
   fetchedUrls (trace (snd (getBrandProductLinks streak_env streak_state
                       ''https://www.gsmarena.com/acme-phones-1.php''))) =
     map (pageUrl ''acme'' ''phones'' ''1'') [1 ..< 8]"
proof -
  let ?url = "''https://www.gsmarena.com/acme-phones-1.php''"
  let ?kinds = "[SomeUnseen, AllSeen, AllSeen, SomeUnseen, AllSeen, AllSeen, AllSeen]"
  have m: "matchBrandUrl ?url = Some (''acme'', ''phones'', ''1'')" by code_simp
  have r: "getBrandProductLinks streak_env streak_state ?url =
             (fst (getBrandProductLinks streak_env streak_state ?url),
              snd (getBrandProductLinks streak_env streak_state ?url))" by simp
  have e: "earlyStop 0 ?kinds = Some 7" by simp
  have h: "API_KEY streak_env \<noteq> []" "\<not> SAVE_HTML_SNAPSHOTS streak_env"
    "creditsUsed streak_state + length ?kinds < MAX_CREDITS"
    "trace streak_state = []" "creditsUsed streak_state = 0"
    by (simp_all add: streak_env_def acme_env_def streak_state_def MAX_CREDITS_def)
  from pagination_early_stop [OF r m, of ?kinds 7 5] e h streak_kinds streak_old
  show ?thesis by simp
qed



section \<open>A run that finds nothing new\<close>

lemma paginate_nothing_new:
  assumes "paginate env slug ty ident page acc c st = (Return links, st')"
    and "seenProducts st = seen"
    and "\<forall>n url body. axios_get env n url = Inr body \<longrightarrow>
           filter (\<lambda>l. seen (link_id l) = None) (parseBrandListing env body) = []"
  shows "links = acc"
  using assms
proof (induction env slug ty ident page acc c st rule: paginate.induct)
  case (1 env slug ty ident page allNewLinks consecutiveOldPages st)
  let ?url = "pageUrl slug ty ident page"
  obtain r st1 where f: "fetchWithScraperAPI env st ?url False = (r, st1)"
    by (cases "fetchWithScraperAPI env st ?url False")
  from fetch_effects [OF f] have
    n1: "seenProducts st1 = seenProducts st"
      "\<forall>body. r = Return body \<longrightarrow> axios_get env (creditsUsed st + 1) ?url = Inr body"
    by blast+
  show ?case
  proof (cases r)
    case (Exit code)
    with "1.prems"(1) f show ?thesis by auto
  next
    case (Throw msg)
    with "1.prems"(1) f show ?thesis by (auto split: if_splits)
  next
    case (Return html)
    let ?links = "parseBrandListing env html"
    let ?new = "filter (\<lambda>link. seenProducts st1 (link_id link) = None) ?links"
    have seen1: "seenProducts st1 = seen" using n1(1) "1.prems"(2) by simp
    from n1(2) Return "1.prems"(3) seen1 have new: "?new = []" by simp
    show ?thesis
    proof (cases "?links = []")
      case True
      with "1.prems"(1) f Return show ?thesis by auto
    next
      case nonempty: False
      show ?thesis
      proof (cases "consecutiveOldPages + 1 \<ge> 3")
        case True
        with "1.prems"(1) f Return nonempty new show ?thesis by (auto simp: Let_def)
      next
        case False
        with "1.prems"(1) f Return nonempty new
        have rec: "paginate env slug ty ident (page + 1) (allNewLinks @ ?new) (consecutiveOldPages + 1) st1 = (Return links, st')"
          by (auto simp: Let_def)
        from "1.IH"(1) [OF f [symmetric] Return refl nonempty refl refl new False rec seen1 "1.prems"(3)]
        show ?thesis using new by simp
      qed
    qed
  qed
qed

lemma fetchEvent_not_Record: "list_all fetchEvent new \<Longrightarrow> \<not> list_ex isRecord new"
  by (induction new) (auto elim: fetchEvent.elims)

lemma processCategory_all_seen:
  assumes pc: "processCategory env bc st = (out, st')"
    and seen: "seenProducts st = seen"
    and old: "\<forall>n url body. axios_get env n url = Inr body \<longrightarrow>
           (\<forall>l\<in>set (parseBrandListing env body). seen (link_id l) \<noteq> None)"
  shows "listing_only [bc] st st'"
proof -
  let ?st0 = "emit (Category (bc_name bc)) st"
  from old have old': "\<forall>n url body. axios_get env n url = Inr body \<longrightarrow>
           filter (\<lambda>l. seen (link_id l) = None) (parseBrandListing env body) = []"
    by (auto simp: filter_empty_conv)
  show ?thesis
  proof (cases "matchBrandUrl (bc_url bc)")
    case None
    then have "getBrandProductLinks env ?st0 (bc_url bc) = (Throw (''Invalid brand URL: '' @ bc_url bc), ?st0)"
      by (simp add: getBrandProductLinks_def)
    with pc have "st' = ?st0"
      by (auto simp: processCategory_def category_catch_def split: if_splits)
    then show ?thesis by (simp add: listing_only_def)
  next
    case (Some m)
    obtain slug ty ident where m: "m = (slug, ty, ident)" by (cases m)
    obtain r st1 where pg: "paginate env slug ty ident 1 [] 0 ?st0 = (r, st1)"
      by (cases "paginate env slug ty ident 1 [] 0 ?st0")
    with Some m have g: "getBrandProductLinks env ?st0 (bc_url bc) = (r, st1)"
      by (simp add: getBrandProductLinks_def)
    have seen0: "seenProducts ?st0 = seen" using seen by simp
    have st': "st' = st1"
    proof (cases r)
      case (Return links)
      with pg paginate_nothing_new [OF _ seen0 old'] have "links = []" by blast
      with pc g Return show ?thesis by (simp add: processCategory_def)
    next
      case (Throw msg)
      with pc g show ?thesis
        by (auto simp: processCategory_def category_catch_def split: if_splits)
    next
      case (Exit code)
      with pc g show ?thesis by (simp add: processCategory_def)
    qed
    from paginate_frame [OF pg] obtain new where
      tr: "trace st1 = trace ?st0 @ new" and fe: "list_all fetchEvent new"
      and sp: "seenProducts st1 = seenProducts ?st0"
      unfolding frame_def by blast
    have old1: "\<forall>q\<ge>1. \<forall>body. axios_get env (creditsUsed ?st0 + q) (pageUrl slug ty ident q) = Inr body \<longrightarrow>
           filter (\<lambda>l. seen (link_id l) = None) (parseBrandListing env body) = []"
      using old' by blast
    from paginate_bound [OF pg seen0 old1 _ refl]
    obtain new' where tr': "trace st1 = trace ?st0 @ new'"
      and fu: "\<forall>url r. Fetch url r \<in> set new' \<longrightarrow>
              (\<exists>q. 1 \<le> q \<and> q < pageBound 1 1 0 \<and> url = pageUrl slug ty ident q)"
      and cr: "creditsUsed st1 + 1 \<le> creditsUsed ?st0 + pageBound 1 1 0"
      by auto
    from tr tr' have same: "new' = new" by simp
    have pb: "pageBound 1 1 0 = 4" by (simp add: pageBound_def)
    have urls: "set (fetchedUrls new) \<subseteq> set (listingUrls [bc])"
    proof
      fix u assume "u \<in> set (fetchedUrls new)"
      then obtain r where "Fetch u r \<in> set new" by (auto simp: fetchedUrls_set)
      with fu same pb obtain q where "1 \<le> q" "q < 4" "u = pageUrl slug ty ident q" by auto
      then have "q = 1 \<or> q = 2 \<or> q = 3" by arith
      with \<open>u = pageUrl slug ty ident q\<close> Some m show "u \<in> set (listingUrls [bc])"
        by (auto simp: listingUrls_def)
    qed
    have "trace st1 = trace st @ (Category (bc_name bc) # new)" using tr by simp
    moreover have "set (fetchedUrls (Category (bc_name bc) # new)) \<subseteq> set (listingUrls [bc])"
      using urls by simp
    moreover have "\<not> list_ex isRecord (Category (bc_name bc) # new)"
      using fetchEvent_not_Record [OF fe] by simp
    moreover have "creditsUsed st1 \<le> creditsUsed st + 3 * length [bc]"
      using cr pb by simp
    moreover have "seenProducts st1 = seenProducts st" using sp by simp
    ultimately show ?thesis unfolding listing_only_def st' by blast
  qed
qed

lemma listing_only_trans:
  assumes "listing_only [bc] st st1" and "listing_only rest st1 st2"
  shows "listing_only (bc # rest) st st2"
proof -
  from assms(1) obtain new1 where a: "seenProducts st1 = seenProducts st"
    "creditsUsed st1 \<le> creditsUsed st + 3" "trace st1 = trace st @ new1"
    "set (fetchedUrls new1) \<subseteq> set (listingUrls [bc])" "\<not> list_ex isRecord new1"
    unfolding listing_only_def by auto
  from assms(2) obtain new2 where b: "seenProducts st2 = seenProducts st1"
    "creditsUsed st2 \<le> creditsUsed st1 + 3 * length rest" "trace st2 = trace st1 @ new2"
    "set (fetchedUrls new2) \<subseteq> set (listingUrls rest)" "\<not> list_ex isRecord new2"
    unfolding listing_only_def by auto
  have l: "listingUrls (bc # rest) = listingUrls [bc] @ listingUrls rest"
    by (simp add: listingUrls_def)
  have "trace st2 = trace st @ (new1 @ new2)" using a(3) b(3) by simp
  moreover have "set (fetchedUrls (new1 @ new2)) \<subseteq> set (listingUrls (bc # rest))"
    using a(4) b(4) l by (auto simp: fetchedUrls_append)
  moreover have "\<not> list_ex isRecord (new1 @ new2)" using a(5) b(5) by simp
  moreover have "creditsUsed st2 \<le> creditsUsed st + 3 * length (bc # rest)"
    using a(2) b(2) by simp
  moreover have "seenProducts st2 = seenProducts st" using a(1) b(1) by simp
  ultimately show ?thesis unfolding listing_only_def by blast
qed

lemma runCategories_all_seen:
  assumes "runCategories env categories st = (out, st')"
    and "seenProducts st = seen"
    and old: "\<forall>n url body. axios_get env n url = Inr body \<longrightarrow>
           (\<forall>l\<in>set (parseBrandListing env body). seen (link_id l) \<noteq> None)"
  shows "listing_only categories st st'"
  using assms(1,2)
proof (induction categories arbitrary: st)
  case Nil
  then show ?case by (simp add: listing_only_def listingUrls_def)
next
  case (Cons bc rest)
  obtain r st1 where pc: "processCategory env bc st = (r, st1)"
    by (cases "processCategory env bc st")
  note one = processCategory_all_seen [OF pc Cons.prems(2) old]
  then have seen1: "seenProducts st1 = seen" using Cons.prems(2) by (simp add: listing_only_def)
  have nil: "listing_only rest st1 st1" by (simp add: listing_only_def)
  show ?case
  proof (cases r)
    case (Return u)
    with Cons.prems(1) pc have "runCategories env rest st1 = (out, st')" by simp
    from listing_only_trans [OF one Cons.IH [OF this seen1]] show ?thesis .
  next
    case (Throw msg)
    with Cons.prems(1) pc have "st' = st1" by simp
    with listing_only_trans [OF one nil] show ?thesis by simp
  next
    case (Exit code)
    with Cons.prems(1) pc have "st' = st1" by simp
    with listing_only_trans [OF one nil] show ?thesis by simp
  qed
qed

text \<open>
  The claim C3 as stated fails: a first run over the catalogue \<open>acme\<close> ends with status 0;
  the second run, started from the files the first one left, charges two fetches for its
  single category, the second one for page 2 of the listing.
\<close>

theorem second_run_fetches_page_two_counterexample:
  "fst (main acme_env acme_categories None Map.empty) = 0 \<and>
   creditsUsed (snd (main acme_env acme_categories
      (state_file (snd (main acme_env acme_categories None Map.empty)))
      (output_files (snd (main acme_env acme_categories None Map.empty))))) = 2 \<and>
   fetchedUrls (trace (snd (main acme_env acme_categories
      (state_file (snd (main acme_env acme_categories None Map.empty)))
      (output_files (snd (main acme_env acme_categories None Map.empty)))))) =
     [''https://www.gsmarena.com/acme-phones-1.php'',
      ''https://www.gsmarena.com/acme-phones-f-1-0-p2.php''] \<and>
   length acme_categories = 1"
  by code_simp

text \<open>
  Claim C3, amended.  When every reference that any served listing page yields is already
  in the ledger loaded at the start, the run charges at most three fetches per category,
  every page it fetches is one of the first three listing pages of a category, and
  nothing is recorded in the ledger.
\<close>

theorem rerun_charges_listing_pages_only:
  assumes run: "main env categories stateFile outputs = (code, st)"
    and old: "\<forall>n url body. axios_get env n url = Inr body \<longrightarrow>
           (\<forall>l\<in>set (parseBrandListing env body).
              (case stateFile of Some m \<Rightarrow> m | None \<Rightarrow> Map.empty) (link_id l) \<noteq> None)"
  shows "creditsUsed st \<le> 3 * length categories \<and>
         set (fetchedUrls (trace st)) \<subseteq> set (listingUrls categories) \<and>
         \<not> list_ex isRecord (trace st)"
proof (cases "API_KEY env = []")
  case True
  with run have "st = initial stateFile outputs" by (simp add: main_def)
  then show ?thesis by simp
next
  case False
  let ?st0 = "(initial stateFile outputs)\<lparr>seenProducts := loadSeenProducts (initial stateFile outputs),
          allScrapedProducts := []\<rparr>"
  from main_cases [OF run False] obtain out st1 where
    rc: "runCategories env categories ?st0 = (out, st1)"
    and fin: "case out of
           Return u \<Rightarrow> code = 0 \<and> st = st1
         | Exit c \<Rightarrow> code = c \<and> st = st1
         | Throw msg \<Rightarrow> code = 1 \<and> st = snd (saveSeenProducts env st1)"
    by blast
  have "seenProducts ?st0 = (case stateFile of Some m \<Rightarrow> m | None \<Rightarrow> Map.empty)" by simp
  from runCategories_all_seen [OF rc this old] obtain new where
    cr: "creditsUsed st1 \<le> 3 * length categories" and tr: "trace st1 = new"
    and fu: "set (fetchedUrls new) \<subseteq> set (listingUrls categories)"
    and nr: "\<not> list_ex isRecord new"
    unfolding listing_only_def by auto
  show ?thesis
  proof (cases out)
    case (Return u)
    with fin cr tr fu nr show ?thesis by simp
  next
    case (Exit c)
    with fin cr tr fu nr show ?thesis by simp
  next
    case (Throw msg)
    with fin have st: "st = snd (saveSeenProducts env st1)" by simp
    then obtain ok where "trace st = new @ [Save (seenProducts st1) ok]"
      and "creditsUsed st = creditsUsed st1"
      using tr by (auto simp: saveSeenProducts_def split: option.splits)
    with cr fu nr show ?thesis by (simp add: fetchedUrls_append)
  qed
qed

lemma acme_all_seen:
  "\<forall>n url body. axios_get acme_env n url = Inr body \<longrightarrow>
     (\<forall>l\<in>set (parseBrandListing acme_env body).
        (case Some acme_ledger of Some m \<Rightarrow> m | None \<Rightarrow> Map.empty) (link_id l) \<noteq> None)"
proof (intro allI impI)
  fix n url body
  assume "axios_get acme_env n url = Inr body"
  then have "body = ''listing'' \<or> body = ''item'' \<or> body = ''nothing''"
    by (auto simp: acme_env_def split: if_splits)
  then show "\<forall>l\<in>set (parseBrandListing acme_env body).
        (case Some acme_ledger of Some m \<Rightarrow> m | None \<Rightarrow> Map.empty) (link_id l) \<noteq> None"
    by (auto simp: parseBrandListing_def acme_env_def List.map_filter_def
      endsWith_def extractProductId_def BASE_def isDigit_def acme_ledger_def)
qed

theorem rerun_charges_listing_pages_only_witness:
  "creditsUsed (snd (main acme_env acme_categories (Some acme_ledger) Map.empty)) \<le> 3 \<and>
   set (fetchedUrls (trace (snd (main acme_env acme_categories (Some acme_ledger) Map.empty))))
     \<subseteq> set (listingUrls acme_categories) \<and>
   \<not> list_ex isRecord (trace (snd (main acme_env acme_categories (Some acme_ledger) Map.empty)))"
proof -
  have r: "main acme_env acme_categories (Some acme_ledger) Map.empty =
     (fst (main acme_env acme_categories (Some acme_ledger) Map.empty),
      snd (main acme_env acme_categories (Some acme_ledger) Map.empty))" by simp
  from rerun_charges_listing_pages_only [OF r acme_all_seen] show ?thesis
    by (simp add: acme_categories_def)
qed


section \<open>The flush after a category\<close>

lemma saveSeenProducts_last:
  "\<exists>ok. trace (snd (saveSeenProducts env st)) = trace st @ [Save (seenProducts st) ok] \<and>
        seenProducts (snd (saveSeenProducts env st)) = seenProducts st \<and>
        fst (saveSeenProducts env st) = Return () \<and>
        (ok \<longrightarrow> state_file (snd (saveSeenProducts env st)) = Some (seenProducts st))"
proof (cases "fs_error env (length (trace st))")
  case None
  then show ?thesis by (intro exI [of _ True]) (simp add: saveSeenProducts_def)
next
  case (Some msg)
  then show ?thesis by (intro exI [of _ False]) (simp add: saveSeenProducts_def)
qed










section \<open>A malformed listing URL\<close>

lemma BRAND_CATEGORIES_match:
  "list_all (\<lambda>bc. matchBrandUrl (bc_url bc) \<noteq> None) BRAND_CATEGORIES"
  by code_simp

lemma invalid_message_block:
  "isBlockError (''Invalid brand URL: '' @ url) = str_includes url ''BLOCK_DETECTED''"
  by (simp add: isBlockError_def str_includes_def)

text \<open>
  Claim C8, amended.  A listing URL that does not match the pattern and does not contain
  the text \<open>BLOCK_DETECTED\<close> makes \<open>getBrandProductLinks\<close> throw at once, before any charge
  or fetch.  The \<open>catch\<close> around the category takes the error: the category ends normally
  after the effect that marks its start, without a retry and without a flush, and the
  run goes on with the categories that follow.
\<close>

theorem malformed_url_is_recoverable:
  assumes "matchBrandUrl (bc_url bc) = None"
    and "\<not> str_includes (bc_url bc) ''BLOCK_DETECTED''"
  shows "getBrandProductLinks env st (bc_url bc) = (Throw (''Invalid brand URL: '' @ bc_url bc), st) \<and>
         processCategory env bc st = (Return (), emit (Category (bc_name bc)) st) \<and>
         runCategories env (bc # rest) st = runCategories env rest (emit (Category (bc_name bc)) st)"
proof -
  from assms(2) invalid_message_block [of "bc_url bc"]
  have "\<not> isBlockError (''Invalid brand URL: '' @ bc_url bc)"
    by blast
  with assms(1) show ?thesis
    by (simp add: getBrandProductLinks_def processCategory_def category_catch_def)
qed

lemma broken_url: "matchBrandUrl (bc_url broken_category) = None"
  by code_simp

lemma broken_url_plain: "\<not> str_includes (bc_url broken_category) ''BLOCK_DETECTED''"
  by code_simp

theorem malformed_url_is_recoverable_witness:
  "matchBrandUrl (bc_url broken_category) = None \<and>
   \<not> str_includes (bc_url broken_category) ''BLOCK_DETECTED'' \<and>
   processCategory acme_env broken_category (initial None Map.empty)
     = (Return (), emit (Category ''broken'') (initial None Map.empty)) \<and>
   runCategories acme_env (broken_category # acme_categories) (initial None Map.empty)
     = runCategories acme_env acme_categories (emit (Category ''broken'') (initial None Map.empty))"
  using malformed_url_is_recoverable [OF broken_url broken_url_plain, of acme_env
      "initial None Map.empty" acme_categories] broken_url broken_url_plain
  by (simp add: broken_category_def)

text \<open>
  The claim C8 as stated fails: with a malformed category in front of the catalogue
  \<open>acme\<close>, the run goes on to fetch the listing and the product of \<open>acme\<close>, records it,
  and ends with status 0.
\<close>

theorem malformed_url_not_fatal_counterexample:
  "matchBrandUrl (bc_url broken_category) = None \<and>
   fst (main acme_env (broken_category # acme_categories) None Map.empty) = 0 \<and>
   fetchedUrls (trace (snd (main acme_env (broken_category # acme_categories) None Map.empty))) =
     [''https://www.gsmarena.com/acme-phones-1.php'',
      ''https://www.gsmarena.com/acme-phones-f-1-0-p2.php'',
      ''https://www.gsmarena.com/acme_a-10.php''] \<and>
   seenProducts (snd (main acme_env (broken_category # acme_categories) None Map.empty)) ''10''
     \<noteq> None"
  by code_simp


section \<open>The fields of a persisted entry\<close>

text \<open>
  Claim C5 evaluated on the code.  After a run over the catalogue \<open>acme\<close> the entry of
  the product \<open>10\<close> in the persisted file has the fields \<open>id\<close>, \<open>name\<close> and \<open>scrapedAt\<close> only:
  \<open>category\<close> and \<open>launchYear\<close> are missing.  The rebuild script writes them
  (\<open>rebuild_entry_fields\<close> below).
\<close>

theorem scraper_entry_lacks_fields:
  "fst (main acme_env acme_categories None Map.empty) = 0 \<and>
   fieldNames (persisted (snd (main acme_env acme_categories None Map.empty)) ''10'') =
     [''id'', ''name'', ''scrapedAt'']"
  by code_simp

lemma rebuildProducts_fields:
  "rebuiltFields seen \<Longrightarrow> rebuiltFields (rebuildProducts products seen)"
proof (induction products arbitrary: seen)
  case Nil
  then show ?case by simp
next
  case (Cons p products)
  let ?seen = "case p_id p of
          None \<Rightarrow> seen
        | Some ident \<Rightarrow> if ident = [] then seen else seen(ident \<mapsto> rebuildEntry p ident)"
  from Cons.prems have "rebuiltFields ?seen"
    by (auto simp: rebuiltFields_def rebuildEntry_def split: option.splits)
  from Cons.IH [OF this] show ?case by simp
qed

lemma rebuildFiles_fields:
  "rebuiltFields seen \<Longrightarrow> rebuiltFields (rebuildFiles files seen)"
  by (induction files arbitrary: seen) (auto simp: rebuildProducts_fields)

lemma rebuild_entry_fields:
  "rebuildSeenProducts files k = Some entry \<Longrightarrow>
   map fst entry = [''id'', ''name'', ''brand'', ''category'', ''launchYear'', ''scrapedAt'']"
  using rebuildFiles_fields [of Map.empty files]
  by (simp add: rebuildSeenProducts_def rebuiltFields_def)


section \<open>The abandonment counter\<close>

text \<open>
  Claim C6 evaluated on the code.  In the scenario \<open>failing_env\<close> the extraction of the
  first three products fails (none of them is out of scope); the counter reaches 3 all
  the same and the fourth product, which \<open>scrapeProduct\<close> accepts when asked, is never
  fetched.
\<close>

theorem counter_counts_extraction_failures:
  "parseProductPage failing_env (initial None Map.empty) ''nothing''
          ''https://www.gsmarena.com/acme_a-11.php'' ''acme''
     = Throw ''Could not extract product name'' \<and>
   (case fst (scrapeProduct failing_env (initial None Map.empty)
                ''https://www.gsmarena.com/acme_d-14.php'' ''acme'') of
      Return (Some p) \<Rightarrow> p_launchYear p = 2024 | _ \<Rightarrow> False) \<and>
   fst (main failing_env acme_categories None Map.empty) = 0 \<and>
   fetchedUrls (trace (snd (main failing_env acme_categories None Map.empty))) =
     [''https://www.gsmarena.com/acme-phones-1.php'',
      ''https://www.gsmarena.com/acme-phones-f-1-0-p2.php'',
      ''https://www.gsmarena.com/acme_a-11.php'',
      ''https://www.gsmarena.com/acme_b-12.php'',
      ''https://www.gsmarena.com/acme_c-13.php''] \<and>
   seenProducts (snd (main failing_env acme_categories None Map.empty)) ''14'' = None"
  by code_simp



section \<open>The ledger is append-only\<close>

lemma scrapeProduct_ledger:
  assumes "scrapeProduct env st productUrl brand = (out, st')"
  shows "case out of
           Return (Some p) \<Rightarrow>
             (\<exists>productId html st1.
                extractProductId productUrl = Some productId \<and>
                seenProducts st productId = None \<and>
                fetchWithScraperAPI env st productUrl False = (Return html, st1) \<and>
                parseProductPage env st1 html productUrl brand = Return p \<and>
                MIN_LAUNCH_YEAR \<le> p_launchYear p \<and>
                seenProducts st' = (seenProducts st)(productId \<mapsto> ledgerEntry productId p))
         | _ \<Rightarrow> seenProducts st' = seenProducts st"
proof (cases "extractProductId productUrl")
  case None
  with assms show ?thesis by (auto simp: scrapeProduct_def)
next
  case (Some productId)
  show ?thesis
  proof (cases "seenProducts st productId = None")
    case False
    with assms Some show ?thesis by (auto simp: scrapeProduct_def)
  next
    case unseen: True
    obtain r st1 where f: "fetchWithScraperAPI env st productUrl False = (r, st1)"
      by (cases "fetchWithScraperAPI env st productUrl False")
    note same = fetch_seenProducts [OF f]
    show ?thesis
    proof (cases r)
      case (Exit code)
      with assms Some unseen f same show ?thesis by (auto simp: scrapeProduct_def)
    next
      case (Throw msg)
      with assms Some unseen f same show ?thesis
        by (auto simp: scrapeProduct_def scrape_catch_def split: if_splits)
    next
      case (Return html)
      show ?thesis
      proof (cases "parseProductPage env st1 html productUrl brand")
        case (Exit code)
        then show ?thesis by (simp add: parse_not_exit)
      next
        case (Throw msg)
        with assms Some unseen f same Return show ?thesis
          by (auto simp: scrapeProduct_def scrape_catch_def split: if_splits)
      next
        case p: (Return p)
        show ?thesis
        proof (cases "p_launchYear p < MIN_LAUNCH_YEAR")
          case True
          with assms Some unseen f same Return p show ?thesis
            by (auto simp: scrapeProduct_def)
        next
          case False
          with assms Some unseen f same Return p show ?thesis
            by (auto simp: scrapeProduct_def)
        qed
      qed
    qed
  qed
qed

lemma runIncrementalScraper_grows:
  assumes "runIncrementalScraper env categories st = (out, st')"
  shows "loadSeenProducts st \<subseteq>\<^sub>m seenProducts st'"
proof -
  let ?st0 = "st\<lparr>seenProducts := loadSeenProducts st, allScrapedProducts := []\<rparr>"
  obtain r st1 where rc: "runCategories env categories ?st0 = (r, st1)"
    by (cases "runCategories env categories ?st0")
  from runCategories_step_ok [OF rc] have le: "loadSeenProducts st \<subseteq>\<^sub>m seenProducts st1"
    unfolding step_ok_def by auto
  have sv: "seenProducts (snd (saveSeenProducts env st1)) = seenProducts st1"
    by (simp add: saveSeenProducts_def split: option.splits)
  have "seenProducts st' = seenProducts st1"
    using assms rc sv
    by (cases r; cases "saveSeenProducts env st1")
       (auto simp: runIncrementalScraper_def Let_def split: outcome.splits)
  with le show ?thesis by simp
qed

lemma accepted_prepend: "accepted env productId entry pre \<Longrightarrow> accepted env productId entry (xs @ pre)"
  unfolding accepted_def
  by (elim exE conjE, rule_tac x = "xs @ pre'" in exI) auto

lemma records_ok_append:
  assumes 1: "records_ok env l new1" and 2: "records_ok env (replay new1 l) new2"
  shows "records_ok env l (new1 @ new2)"
  unfolding records_ok_def
proof (intro allI impI)
  fix pre productId entry post
  assume "new1 @ new2 = pre @ Record productId entry # post"
  then obtain us where
    "(new1 = pre @ us \<and> us @ new2 = Record productId entry # post) \<or>
     (new1 @ us = pre \<and> new2 = us @ Record productId entry # post)"
    by (auto simp: append_eq_append_conv2)
  then show "replay pre l productId = None \<and> accepted env productId entry pre"
  proof
    assume a: "new1 = pre @ us \<and> us @ new2 = Record productId entry # post"
    show ?thesis
    proof (cases us)
      case Nil
      with a have "new2 = [] @ Record productId entry # post" "pre = new1" by simp_all
      with 2 have "replay [] (replay new1 l) productId = None" "accepted env productId entry []"
        unfolding records_ok_def by blast+
      with \<open>pre = new1\<close> accepted_prepend [of env productId entry "[]" new1] show ?thesis by simp
    next
      case (Cons u us')
      with a have "new1 = pre @ Record productId entry # us'" by simp
      with 1 show ?thesis unfolding records_ok_def by blast
    qed
  next
    assume b: "new1 @ us = pre \<and> new2 = us @ Record productId entry # post"
    with 2 have "replay us (replay new1 l) productId = None" "accepted env productId entry us"
      unfolding records_ok_def by blast+
    with b accepted_prepend [of env productId entry us new1] show ?thesis
      by (auto simp: replay_append)
  qed
qed

lemma saves_ok_append:
  assumes 1: "saves_ok l new1" and 2: "saves_ok (replay new1 l) new2"
  shows "saves_ok l (new1 @ new2)"
  unfolding saves_ok_def
proof (intro allI impI)
  fix pre m ok post
  assume "new1 @ new2 = pre @ Save m ok # post"
  then obtain us where
    "(new1 = pre @ us \<and> us @ new2 = Save m ok # post) \<or>
     (new1 @ us = pre \<and> new2 = us @ Save m ok # post)"
    by (auto simp: append_eq_append_conv2)
  then show "m = replay pre l"
  proof
    assume a: "new1 = pre @ us \<and> us @ new2 = Save m ok # post"
    show ?thesis
    proof (cases us)
      case Nil
      with a have "new2 = [] @ Save m ok # post" "pre = new1" by simp_all
      with 2 have "m = replay [] (replay new1 l)" unfolding saves_ok_def by blast
      with \<open>pre = new1\<close> show ?thesis by simp
    next
      case (Cons u us')
      with a have "new1 = pre @ Save m ok # us'" by simp
      with 1 show ?thesis unfolding saves_ok_def by blast
    qed
  next
    assume b: "new1 @ us = pre \<and> new2 = us @ Save m ok # post"
    with 2 have "m = replay us (replay new1 l)" unfolding saves_ok_def by blast
    with b show ?thesis by (auto simp: replay_append)
  qed
qed

lemma ledger_ok_trans:
  assumes "ledger_ok env st st1" and "ledger_ok env st1 st2"
  shows "ledger_ok env st st2"
proof -
  from assms(1) obtain new1 where a: "trace st1 = trace st @ new1"
    "seenProducts st1 = replay new1 (seenProducts st)"
    "records_ok env (seenProducts st) new1" "saves_ok (seenProducts st) new1"
    unfolding ledger_ok_def by blast
  from assms(2) obtain new2 where b: "trace st2 = trace st1 @ new2"
    "seenProducts st2 = replay new2 (seenProducts st1)"
    "records_ok env (seenProducts st1) new2" "saves_ok (seenProducts st1) new2"
    unfolding ledger_ok_def by blast
  have "trace st2 = trace st @ (new1 @ new2)" using a(1) b(1) by simp
  moreover have "seenProducts st2 = replay (new1 @ new2) (seenProducts st)"
    using a(2) b(2) by (simp add: replay_append)
  moreover have "records_ok env (seenProducts st) (new1 @ new2)"
    using a(2,3) b(3) by (simp add: records_ok_append)
  moreover have "saves_ok (seenProducts st) (new1 @ new2)"
    using a(2,4) b(4) by (simp add: saves_ok_append)
  ultimately show ?thesis unfolding ledger_ok_def by blast
qed

lemma replay_quiet: "list_all quietEvent new \<Longrightarrow> replay new l = l"
proof (induction new)
  case Nil
  show ?case by simp
next
  case (Cons e new)
  then show ?case by (cases e) (simp_all add: quietEvent_def)
qed

lemma quiet_ledger_ok:
  assumes "trace st' = trace st @ new" and q: "list_all quietEvent new"
    and "seenProducts st' = seenProducts st"
  shows "ledger_ok env st st'"
proof -
  have "records_ok env (seenProducts st) new"
    unfolding records_ok_def using q by (auto simp: quietEvent_def)
  moreover have "saves_ok (seenProducts st) new"
    unfolding saves_ok_def using q by (auto simp: quietEvent_def)
  ultimately show ?thesis
    using assms replay_quiet [OF q] unfolding ledger_ok_def by auto
qed

lemma fetchEvent_quiet: "list_all fetchEvent new \<Longrightarrow> list_all quietEvent new"
  by (induction new) (auto simp: quietEvent_def elim: fetchEvent.elims)

lemma frame_ledger_ok: "frame st st' \<Longrightarrow> ledger_ok env st st'"
  unfolding frame_def by (auto intro: quiet_ledger_ok fetchEvent_quiet)

lemma ledger_ok_refl: "trace st' = trace st \<Longrightarrow> seenProducts st' = seenProducts st \<Longrightarrow> ledger_ok env st st'"
  by (rule quiet_ledger_ok [where new = "[]"]) simp_all

lemma fetch_Return_events:
  assumes "fetchWithScraperAPI env st url e = (Return body, st1)"
  shows "\<exists>n snap. trace st1 = trace st @ Charge n # Fetch url (Inr body) # snap \<and>
           (snap = [] \<or> snap = [Snapshot url True]) \<and> \<not> isBlocked body \<and>
           seenProducts st1 = seenProducts st"
  using assms
  by (auto simp: fetchWithScraperAPI_def Let_def emit_def fetch_catch_def
           split: if_splits sum.splits option.splits)

lemma record_ledger_ok:
  assumes tr: "trace st1 = trace st @ Charge n # Fetch url (Inr body) # snap"
    and snap: "snap = [] \<or> snap = [Snapshot url True]"
    and nb: "\<not> isBlocked body"
    and same: "seenProducts st1 = seenProducts st"
    and unseen: "seenProducts st productId = None"
    and pid: "extractProductId url = Some productId"
    and parse: "parseProductPage env st1 body url brand = Return p"
    and year: "MIN_LAUNCH_YEAR \<le> p_launchYear p"
  shows "ledger_ok env st
           (emit (Record productId (ledgerEntry productId p))
              (st1\<lparr>seenProducts := (seenProducts st1)(productId \<mapsto> ledgerEntry productId p)\<rparr>))"
proof -
  let ?pre = "Charge n # Fetch url (Inr body) # snap"
  let ?R = "Record productId (ledgerEntry productId p)"
  let ?new = "?pre @ [?R]"
  have noRec: "\<forall>pid e. Record pid e \<notin> set ?pre" and noSave: "\<forall>m ok. Save m ok \<notin> set ?pre"
    using snap by auto
  have rp: "replay ?pre (seenProducts st) = seenProducts st" using snap by auto
  have acc: "accepted env productId (ledgerEntry productId p) ?pre"
    unfolding accepted_def
    using snap nb pid parse year
    by (intro exI [of _ "[Charge n]"] exI [of _ url] exI [of _ body] exI [of _ snap]
              exI [of _ brand] exI [of _ st1] exI [of _ p]) simp
  have rec: "records_ok env (seenProducts st) ?new"
    unfolding records_ok_def
  proof (intro allI impI)
    fix pre pid entry post
    assume eq: "?new = pre @ Record pid entry # post"
    have "post = []"
    proof (rule ccontr)
      assume "post \<noteq> []"
      then obtain post' x where "post = post' @ [x]" by (cases post rule: rev_cases) auto
      with eq have "?pre @ [?R] = (pre @ Record pid entry # post') @ [x]" by simp
      then have "?pre = pre @ Record pid entry # post'" by (simp only: append1_eq_conv)
      then have "Record pid entry \<in> set ?pre" by (metis in_set_conv_decomp)
      with noRec show False by blast
    qed
    with eq have "?pre @ [?R] = pre @ [Record pid entry]" by auto
    then have "pre = ?pre" "pid = productId" "entry = ledgerEntry productId p"
      by auto
    with rp unseen acc show "replay pre (seenProducts st) pid = None \<and> accepted env pid entry pre"
      by simp
  qed
  have sav: "saves_ok (seenProducts st) ?new"
    unfolding saves_ok_def
  proof (intro allI impI)
    fix pre m ok post
    assume "?new = pre @ Save m ok # post"
    then have "Save m ok \<in> set ?new" by (metis in_set_conv_decomp)
    with noSave show "m = replay pre (seenProducts st)" by auto
  qed
  have "trace (emit ?R (st1\<lparr>seenProducts := (seenProducts st1)(productId \<mapsto> ledgerEntry productId p)\<rparr>))
          = trace st @ ?new" using tr by simp
  moreover have "seenProducts (emit ?R (st1\<lparr>seenProducts := (seenProducts st1)(productId \<mapsto> ledgerEntry productId p)\<rparr>))
          = replay ?new (seenProducts st)"
  proof -
    have "replay ?new (seenProducts st) = replay [?R] (replay ?pre (seenProducts st))"
      by (rule replay_append)
    with rp same show ?thesis by simp
  qed
  ultimately show ?thesis using rec sav unfolding ledger_ok_def by blast
qed

lemma scrapeProduct_ledger_ok:
  assumes sp: "scrapeProduct env st productUrl brand = (out, st')"
  shows "ledger_ok env st st'"
proof (cases "extractProductId productUrl")
  case None
  with sp show ?thesis by (auto simp: scrapeProduct_def intro: ledger_ok_refl)
next
  case (Some productId)
  show ?thesis
  proof (cases "seenProducts st productId = None")
    case False
    with sp Some show ?thesis by (auto simp: scrapeProduct_def intro: ledger_ok_refl)
  next
    case unseen: True
    obtain r st1 where f: "fetchWithScraperAPI env st productUrl False = (r, st1)"
      by (cases "fetchWithScraperAPI env st productUrl False")
    note quiet = frame_ledger_ok [OF fetch_frame [OF f], of env]
    show ?thesis
    proof (cases r)
      case (Exit code)
      with sp Some unseen f have "st' = st1" by (auto simp: scrapeProduct_def)
      with quiet show ?thesis by simp
    next
      case (Throw msg)
      with sp Some unseen f have "st' = st1"
        by (auto simp: scrapeProduct_def scrape_catch_def split: if_splits)
      with quiet show ?thesis by simp
    next
      case (Return html)
      show ?thesis
      proof (cases "parseProductPage env st1 html productUrl brand")
        case (Exit code)
        then show ?thesis by (simp add: parse_not_exit)
      next
        case (Throw msg)
        with sp Some unseen f Return have "st' = st1"
          by (auto simp: scrapeProduct_def scrape_catch_def split: if_splits)
        with quiet show ?thesis by simp
      next
        case p: (Return p)
        show ?thesis
        proof (cases "p_launchYear p < MIN_LAUNCH_YEAR")
          case True
          with sp Some unseen f Return p have "st' = st1" by (auto simp: scrapeProduct_def)
          with quiet show ?thesis by simp
        next
          case False
          with sp Some unseen f Return p
          have s: "st' = emit (Record productId (ledgerEntry productId p))
                           (st1\<lparr>seenProducts :=
                                  (seenProducts st1)(productId \<mapsto> ledgerEntry productId p)\<rparr>)"
            by (auto simp: scrapeProduct_def)
          from f Return have "fetchWithScraperAPI env st productUrl False = (Return html, st1)"
            by simp
          from fetch_Return_events [OF this] obtain n snap where
            ev: "trace st1 = trace st @ Charge n # Fetch productUrl (Inr html) # snap"
              "snap = [] \<or> snap = [Snapshot productUrl True]" "\<not> isBlocked html"
              "seenProducts st1 = seenProducts st"
            by blast
          from False have "MIN_LAUNCH_YEAR \<le> p_launchYear p" by simp
          from record_ledger_ok [OF ev unseen Some p this] show ?thesis unfolding s .
        qed
      qed
    qed
  qed
qed

lemma appendScrapedProduct_ledger_ok: "ledger_ok env st (snd (appendScrapedProduct env st p))"
proof -
  have "\<exists>ok. trace (snd (appendScrapedProduct env st p)) = trace st @ [Append p ok]"
    by (auto simp: appendScrapedProduct_def Let_def split: option.splits)
  then obtain ok where tr: "trace (snd (appendScrapedProduct env st p)) = trace st @ [Append p ok]" ..
  have sp: "seenProducts (snd (appendScrapedProduct env st p)) = seenProducts st"
    by (simp add: appendScrapedProduct_def Let_def split: option.splits)
  show ?thesis
    by (rule quiet_ledger_ok [OF tr _ sp]) (simp add: quietEvent_def)
qed

lemma saveSeenProducts_ledger_ok: "ledger_ok env st (snd (saveSeenProducts env st))"
proof -
  from saveSeenProducts_last [of env st] obtain ok where
    tr: "trace (snd (saveSeenProducts env st)) = trace st @ [Save (seenProducts st) ok]"
    and sp: "seenProducts (snd (saveSeenProducts env st)) = seenProducts st" by blast
  have "records_ok env (seenProducts st) [Save (seenProducts st) ok]"
    unfolding records_ok_def by (auto simp: Cons_eq_append_conv)
  moreover have "saves_ok (seenProducts st) [Save (seenProducts st) ok]"
    unfolding saves_ok_def by (auto simp: Cons_eq_append_conv)
  ultimately show ?thesis using tr sp unfolding ledger_ok_def by auto
qed

lemma scrapeLinks_ledger_ok:
  "scrapeLinks env brand links cnt st = (out, st') \<Longrightarrow> ledger_ok env st st'"
proof (induction links arbitrary: cnt st)
  case Nil
  then show ?case by (auto intro: ledger_ok_refl)
next
  case (Cons link rest)
  obtain r st1 where sp: "scrapeProduct env st (link_url link) brand = (r, st1)"
    by (cases "scrapeProduct env st (link_url link) brand")
  note ok1 = scrapeProduct_ledger_ok [OF sp]
  show ?case
  proof (cases r)
    case (Exit code)
    with Cons.prems sp have "st' = st1" by auto
    with ok1 show ?thesis by simp
  next
    case (Throw msg)
    show ?thesis
    proof (cases "isBlockError msg")
      case True
      with Cons.prems sp Throw have "st' = st1" by auto
      with ok1 show ?thesis by simp
    next
      case False
      with Cons.prems sp Throw have "scrapeLinks env brand rest cnt st1 = (out, st')" by auto
      from ledger_ok_trans [OF ok1 Cons.IH [OF this]] show ?thesis .
    qed
  next
    case (Return res)
    show ?thesis
    proof (cases res)
      case None
      show ?thesis
      proof (cases "cnt + 1 \<ge> 3")
        case True
        with Cons.prems sp Return None have "st' = st1" by auto
        with ok1 show ?thesis by simp
      next
        case False
        with Cons.prems sp Return None
        have "scrapeLinks env brand rest (cnt + 1) st1 = (out, st')" by auto
        from ledger_ok_trans [OF ok1 Cons.IH [OF this]] show ?thesis .
      qed
    next
      case (Some p)
      let ?st1' = "st1\<lparr>allScrapedProducts := allScrapedProducts st1 @ [p]\<rparr>"
      obtain a st2 where ap: "appendScrapedProduct env ?st1' p = (a, st2)"
        by (cases "appendScrapedProduct env ?st1' p")
      from appendScrapedProduct_step_ok(2) [OF ap] have a: "a = Return ()" .
      have "ledger_ok env st1 ?st1'" by (simp add: ledger_ok_refl)
      moreover from appendScrapedProduct_ledger_ok [of env ?st1' p] ap
      have "ledger_ok env ?st1' st2" by simp
      ultimately have ok12: "ledger_ok env st1 st2" by (rule ledger_ok_trans)
      from Cons.prems sp Return Some ap a
      have "scrapeLinks env brand rest 0 st2 = (out, st')" by auto
      from ledger_ok_trans [OF ok1 ledger_ok_trans [OF ok12 Cons.IH [OF this]]]
      show ?thesis .
    qed
  qed
qed

lemma processCategory_ledger_ok:
  assumes pc: "processCategory env bc st = (out, st')"
  shows "ledger_ok env st st'"
proof -
  let ?st0 = "emit (Category (bc_name bc)) st"
  have ok0: "ledger_ok env st ?st0"
    by (rule quiet_ledger_ok [where new = "[Category (bc_name bc)]"]) (simp_all add: quietEvent_def)
  obtain r st1 where g: "getBrandProductLinks env ?st0 (bc_url bc) = (r, st1)"
    by (cases "getBrandProductLinks env ?st0 (bc_url bc)")
  note ok1 = ledger_ok_trans [OF ok0 frame_ledger_ok [OF getBrandProductLinks_frame [OF g]]]
  show ?thesis
  proof (cases r)
    case (Exit code)
    with pc g have "st' = st1" by (auto simp: processCategory_def)
    with ok1 show ?thesis by simp
  next
    case (Throw msg)
    with pc g have "st' = st1"
      by (auto simp: processCategory_def category_catch_def split: if_splits)
    with ok1 show ?thesis by simp
  next
    case (Return newLinks)
    show ?thesis
    proof (cases "newLinks = []")
      case True
      with pc g Return have "st' = st1" by (auto simp: processCategory_def)
      with ok1 show ?thesis by simp
    next
      case False
      obtain r2 st2 where sl: "scrapeLinks env (bc_name bc) newLinks 0 st1 = (r2, st2)"
        by (cases "scrapeLinks env (bc_name bc) newLinks 0 st1")
      note ok2 = ledger_ok_trans [OF ok1 scrapeLinks_ledger_ok [OF sl]]
      show ?thesis
      proof (cases r2)
        case (Exit code)
        with pc g Return False sl have "st' = st2" by (auto simp: processCategory_def)
        with ok2 show ?thesis by simp
      next
        case (Throw msg)
        with pc g Return False sl have "st' = st2"
          by (auto simp: processCategory_def category_catch_def split: if_splits)
        with ok2 show ?thesis by simp
      next
        case r2: (Return u)
        from saveSeenProducts_last [of env st2]
        have "fst (saveSeenProducts env st2) = Return ()" by blast
        then obtain st3 where sv: "saveSeenProducts env st2 = (Return (), st3)"
          by (cases "saveSeenProducts env st2") auto
        with pc g Return False sl r2 have "st' = st3" by (auto simp: processCategory_def)
        with saveSeenProducts_ledger_ok [of env st2] sv have "ledger_ok env st2 st'" by simp
        from ledger_ok_trans [OF ok2 this] show ?thesis .
      qed
    qed
  qed
qed

lemma runCategories_ledger_ok:
  "runCategories env cats st = (out, st') \<Longrightarrow> ledger_ok env st st'"
proof (induction cats arbitrary: st)
  case Nil
  then show ?case by (auto intro: ledger_ok_refl)
next
  case (Cons bc rest)
  obtain r st1 where pc: "processCategory env bc st = (r, st1)"
    by (cases "processCategory env bc st")
  note ok1 = processCategory_ledger_ok [OF pc]
  show ?case
  proof (cases r)
    case (Return u)
    with Cons.prems pc have "runCategories env rest st1 = (out, st')" by simp
    from ledger_ok_trans [OF ok1 Cons.IH [OF this]] show ?thesis .
  next
    case (Throw msg)
    with Cons.prems pc have "st' = st1" by simp
    with ok1 show ?thesis by simp
  next
    case (Exit code)
    with Cons.prems pc have "st' = st1" by simp
    with ok1 show ?thesis by simp
  qed
qed

lemma main_ledger_ok:
  assumes run: "main env categories stateFile outputs = (code, fin)"
    and key: "API_KEY env \<noteq> []"
  shows "seenProducts fin = replay (trace fin) (case stateFile of Some l \<Rightarrow> l | None \<Rightarrow> Map.empty) \<and>
         records_ok env (case stateFile of Some l \<Rightarrow> l | None \<Rightarrow> Map.empty) (trace fin) \<and>
         saves_ok (case stateFile of Some l \<Rightarrow> l | None \<Rightarrow> Map.empty) (trace fin)"
proof -
  let ?st0 = "(initial stateFile outputs)\<lparr>seenProducts := loadSeenProducts (initial stateFile outputs),
          allScrapedProducts := []\<rparr>"
  from main_cases [OF run key] obtain out st1 where
    rc: "runCategories env categories ?st0 = (out, st1)"
    and fin: "case out of
           Return u \<Rightarrow> code = 0 \<and> fin = st1
         | Exit c \<Rightarrow> code = c \<and> fin = st1
         | Throw msg \<Rightarrow> code = 1 \<and> fin = snd (saveSeenProducts env st1)"
    by blast
  note ok1 = runCategories_ledger_ok [OF rc]
  have "ledger_ok env ?st0 fin"
  proof (cases out)
    case (Return u)
    with fin ok1 show ?thesis by simp
  next
    case (Exit c)
    with fin ok1 show ?thesis by simp
  next
    case (Throw msg)
    with fin have "fin = snd (saveSeenProducts env st1)" by simp
    with saveSeenProducts_ledger_ok [of env st1] have "ledger_ok env st1 fin" by simp
    from ledger_ok_trans [OF ok1 this] show ?thesis .
  qed
  then show ?thesis unfolding ledger_ok_def by auto
qed

lemma records_fresh_grow:
  assumes "\<forall>pre productId entry post.
             tr = pre @ Record productId entry # post \<longrightarrow> replay pre l productId = None"
    and "tr = pre @ post"
  shows "replay pre l \<subseteq>\<^sub>m replay tr l"
  using assms(2)
proof (induction post arbitrary: pre)
  case Nil
  then show ?case by simp
next
  case (Cons e post)
  then have tr: "tr = (pre @ [e]) @ post" by simp
  from Cons.IH [OF this] have ih: "replay (pre @ [e]) l \<subseteq>\<^sub>m replay tr l" .
  have "replay pre l \<subseteq>\<^sub>m replay (pre @ [e]) l"
  proof (cases e)
    case (Record productId entry)
    with Cons.prems assms(1) have "replay pre l productId = None" by blast
    with Record show ?thesis by (auto simp: replay_append map_le_def)
  qed (simp_all add: replay_append)
  from map_le_trans [OF this ih] show ?case .
qed

lemma isRecord_conv: "isRecord ev \<longleftrightarrow> (\<exists>productId entry. ev = Record productId entry)"
  by (cases ev) simp_all

lemma isSave_conv: "isSave ev \<longleftrightarrow> (\<exists>m ok. ev = Save m ok)"
  by (cases ev) simp_all

text \<open>
  Claim C9.  The in-memory mapping is append-only within a run.  Of the operations,
  \<open>scrapeProduct\<close> is the only one that changes it: its result extends the mapping it
  started from and differs from it only when the product is returned, which needs an id
  that was not in the mapping, a fetch that returned a page, an extraction that succeeded
  and a launch year that passes the filter; the fetch, the pagination, the sink and the
  flush leave it as it is.  Of a whole run of \<open>main\<close>: the mapping at the end is the
  loaded one changed by exactly the assignments among the effects of the run; between any
  two points of the run the mapping only grows; every assignment is made for an id that
  is not in the mapping at that point, directly after the fetch of a page of that id
  that returned an unblocked body from which the extraction succeeds with a launch year
  that passes the filter, and it stores the entry of that product; and every flush
  writes the mapping of its point of the run.  So an item the filter rejects, or one
  whose fetch or extraction fails, leaves the mapping unchanged.
\<close>

theorem ledger_append_only:
  "(scrapeProduct env st productUrl brand = (out, st') \<longrightarrow>
      seenProducts st \<subseteq>\<^sub>m seenProducts st' \<and>
      (case out of
         Return (Some p) \<Rightarrow>
           (\<exists>productId html st1.
              extractProductId productUrl = Some productId \<and>
              seenProducts st productId = None \<and>
              fetchWithScraperAPI env st productUrl False = (Return html, st1) \<and>
              parseProductPage env st1 html productUrl brand = Return p \<and>
              MIN_LAUNCH_YEAR \<le> p_launchYear p \<and>
              seenProducts st' = (seenProducts st)(productId \<mapsto> ledgerEntry productId p))
       | _ \<Rightarrow> seenProducts st' = seenProducts st)) \<and>
   seenProducts (snd (fetchWithScraperAPI env st url e)) = seenProducts st \<and>
   seenProducts (snd (getBrandProductLinks env st brandUrl)) = seenProducts st \<and>
   seenProducts (snd (appendScrapedProduct env st q)) = seenProducts st \<and>
   seenProducts (snd (saveSeenProducts env st)) = seenProducts st \<and>
   (runIncrementalScraper env categories st = (r, fin) \<longrightarrow>
      loadSeenProducts st \<subseteq>\<^sub>m seenProducts fin) \<and>
   (main env categories stateFile outputs = (code, final) \<and> API_KEY env \<noteq> [] \<longrightarrow>
      seenProducts final =
        replay (trace final) (case stateFile of Some l \<Rightarrow> l | None \<Rightarrow> Map.empty) \<and>
      (\<forall>pre mid post. trace final = pre @ mid @ post \<longrightarrow>
         replay pre (case stateFile of Some l \<Rightarrow> l | None \<Rightarrow> Map.empty) \<subseteq>\<^sub>m
         replay (pre @ mid) (case stateFile of Some l \<Rightarrow> l | None \<Rightarrow> Map.empty)) \<and>
      (\<forall>pre productId entry post.
         trace final = pre @ Record productId entry # post \<longrightarrow>
           replay pre (case stateFile of Some l \<Rightarrow> l | None \<Rightarrow> Map.empty) productId = None \<and>
           (\<exists>pre' page body snap brand' st1 p.
              pre = pre' @ Fetch page (Inr body) # snap \<and>
              (snap = [] \<or> snap = [Snapshot page True]) \<and>
              \<not> isBlocked body \<and>
              extractProductId page = Some productId \<and>
              parseProductPage env st1 body page brand' = Return p \<and>
              MIN_LAUNCH_YEAR \<le> p_launchYear p \<and>
              entry = ledgerEntry productId p)) \<and>
      (\<forall>pre m ok post.
         trace final = pre @ Save m ok # post \<longrightarrow>
           m = replay pre (case stateFile of Some l \<Rightarrow> l | None \<Rightarrow> Map.empty)))"
proof (intro conjI impI)
  assume sp: "scrapeProduct env st productUrl brand = (out, st')"
  from scrapeProduct_step_ok [OF sp] show "seenProducts st \<subseteq>\<^sub>m seenProducts st'"
    unfolding step_ok_def by auto
  from scrapeProduct_ledger [OF sp]
  show "case out of
         Return (Some p) \<Rightarrow>
           (\<exists>productId html st1.
              extractProductId productUrl = Some productId \<and>
              seenProducts st productId = None \<and>
              fetchWithScraperAPI env st productUrl False = (Return html, st1) \<and>
              parseProductPage env st1 html productUrl brand = Return p \<and>
              MIN_LAUNCH_YEAR \<le> p_launchYear p \<and>
              seenProducts st' = (seenProducts st)(productId \<mapsto> ledgerEntry productId p))
       | _ \<Rightarrow> seenProducts st' = seenProducts st" .
next
  show "seenProducts (snd (fetchWithScraperAPI env st url e)) = seenProducts st"
    by (rule fetch_seenProducts [of env st url e "fst (fetchWithScraperAPI env st url e)"]) simp
next
  have "frame st (snd (getBrandProductLinks env st brandUrl))"
    by (rule getBrandProductLinks_frame [of env st brandUrl "fst (getBrandProductLinks env st brandUrl)"]) simp
  then show "seenProducts (snd (getBrandProductLinks env st brandUrl)) = seenProducts st"
    unfolding frame_def by auto
next
  show "seenProducts (snd (appendScrapedProduct env st q)) = seenProducts st"
    by (simp add: appendScrapedProduct_def Let_def split: option.splits)
next
  show "seenProducts (snd (saveSeenProducts env st)) = seenProducts st"
    by (simp add: saveSeenProducts_def split: option.splits)
next
  assume "runIncrementalScraper env categories st = (r, fin)"
  then show "loadSeenProducts st \<subseteq>\<^sub>m seenProducts fin"
    by (rule runIncrementalScraper_grows)
next
  let ?loaded = "case stateFile of Some l \<Rightarrow> l | None \<Rightarrow> Map.empty"
  assume "main env categories stateFile outputs = (code, final) \<and> API_KEY env \<noteq> []"
  then have run: "main env categories stateFile outputs = (code, final)"
    and key: "API_KEY env \<noteq> []" by simp_all
  from main_ledger_ok [OF run key]
  have a: "seenProducts final = replay (trace final) ?loaded"
    and b: "records_ok env ?loaded (trace final)"
    and c: "saves_ok ?loaded (trace final)" by simp_all
  from a show "seenProducts final = replay (trace final) ?loaded" .
  from b show "\<forall>pre productId entry post.
         trace final = pre @ Record productId entry # post \<longrightarrow>
           replay pre ?loaded productId = None \<and>
           (\<exists>pre' page body snap brand' st1 p.
              pre = pre' @ Fetch page (Inr body) # snap \<and>
              (snap = [] \<or> snap = [Snapshot page True]) \<and>
              \<not> isBlocked body \<and>
              extractProductId page = Some productId \<and>
              parseProductPage env st1 body page brand' = Return p \<and>
              MIN_LAUNCH_YEAR \<le> p_launchYear p \<and>
              entry = ledgerEntry productId p)"
    unfolding records_ok_def accepted_def by simp
  from c show "\<forall>pre m ok post.
         trace final = pre @ Save m ok # post \<longrightarrow> m = replay pre ?loaded"
    unfolding saves_ok_def by simp
  show "\<forall>pre mid post. trace final = pre @ mid @ post \<longrightarrow>
         replay pre ?loaded \<subseteq>\<^sub>m replay (pre @ mid) ?loaded"
  proof (intro allI impI)
    fix pre mid post
    assume tr: "trace final = pre @ mid @ post"
    have "\<forall>pre' productId entry post'.
             pre @ mid = pre' @ Record productId entry # post' \<longrightarrow>
               replay pre' ?loaded productId = None"
    proof (intro allI impI)
      fix pre' productId entry post'
      assume "pre @ mid = pre' @ Record productId entry # post'"
      with tr have "trace final = pre' @ Record productId entry # (post' @ post)" by simp
      with b show "replay pre' ?loaded productId = None" unfolding records_ok_def by blast
    qed
    from records_fresh_grow [OF this refl]
    show "replay pre ?loaded \<subseteq>\<^sub>m replay (pre @ mid) ?loaded" .
  qed
qed

lemma mixed_run_facts:
  "seenProducts (snd (main mixed_env acme_categories (Some known_ledger) Map.empty)) ''10'' =
     Some [(''id'', JString ''10''), (''name'', JString ''Acme A''),
           (''scrapedAt'', JString ''2026-01-01T00:00:00.000Z'')] \<and>
   seenProducts (snd (main mixed_env acme_categories (Some known_ledger) Map.empty)) ''20'' =
     Some [(''id'', JString ''20''), (''name'', JString ''Acme B''),
           (''scrapedAt'', JString ''2025-06-01T00:00:00.000Z'')] \<and>
   seenProducts (snd (main mixed_env acme_categories (Some known_ledger) Map.empty)) ''30'' = None \<and>
   fetchedUrls (trace (snd (main mixed_env acme_categories (Some known_ledger) Map.empty))) =
     [''https://www.gsmarena.com/acme-phones-1.php'',
      ''https://www.gsmarena.com/acme-phones-f-1-0-p2.php'',
      ''https://www.gsmarena.com/acme_a-10.php'',
      ''https://www.gsmarena.com/acme_c-30.php''] \<and>
   list_ex isRecord (trace (snd (main mixed_env acme_categories (Some known_ledger) Map.empty))) \<and>
   list_ex isSave (trace (snd (main mixed_env acme_categories (Some known_ledger) Map.empty)))"
  by code_simp

theorem ledger_append_only_witness:
  "API_KEY mixed_env \<noteq> [] \<and>
   seenProducts (snd (main mixed_env acme_categories (Some known_ledger) Map.empty)) =
     replay (trace (snd (main mixed_env acme_categories (Some known_ledger) Map.empty))) known_ledger \<and>
   known_ledger \<subseteq>\<^sub>m
     seenProducts (snd (main mixed_env acme_categories (Some known_ledger) Map.empty)) \<and>
   seenProducts (snd (main mixed_env acme_categories (Some known_ledger) Map.empty)) ''10'' \<noteq> None \<and>
   seenProducts (snd (main mixed_env acme_categories (Some known_ledger) Map.empty)) ''30'' = None \<and>
   (\<exists>pre productId entry post p.
      trace (snd (main mixed_env acme_categories (Some known_ledger) Map.empty)) =
        pre @ Record productId entry # post \<and>
      replay pre known_ledger productId = None \<and>
      MIN_LAUNCH_YEAR \<le> p_launchYear p \<and> entry = ledgerEntry productId p) \<and>
   (\<exists>pre m ok post.
      trace (snd (main mixed_env acme_categories (Some known_ledger) Map.empty)) =
        pre @ Save m ok # post \<and> m = replay pre known_ledger)"
proof -
  let ?fin = "snd (main mixed_env acme_categories (Some known_ledger) Map.empty)"
  have key: "API_KEY mixed_env \<noteq> []" by (simp add: mixed_env_def acme_env_def)
  have run: "main mixed_env acme_categories (Some known_ledger) Map.empty =
               (fst (main mixed_env acme_categories (Some known_ledger) Map.empty), ?fin)"
    by simp
  from ledger_append_only [where env = mixed_env and categories = acme_categories
      and stateFile = "Some known_ledger" and outputs = Map.empty
      and code = "fst (main mixed_env acme_categories (Some known_ledger) Map.empty)"
      and final = ?fin] run key
  have a: "seenProducts ?fin = replay (trace ?fin) known_ledger"
    and grow: "\<forall>pre mid post. trace ?fin = pre @ mid @ post \<longrightarrow>
         replay pre known_ledger \<subseteq>\<^sub>m replay (pre @ mid) known_ledger"
    and rec: "\<forall>pre productId entry post.
         trace ?fin = pre @ Record productId entry # post \<longrightarrow>
           replay pre known_ledger productId = None \<and>
           (\<exists>pre' page body snap brand' st1 p.
              pre = pre' @ Fetch page (Inr body) # snap \<and>
              (snap = [] \<or> snap = [Snapshot page True]) \<and>
              \<not> isBlocked body \<and>
              extractProductId page = Some productId \<and>
              parseProductPage mixed_env st1 body page brand' = Return p \<and>
              MIN_LAUNCH_YEAR \<le> p_launchYear p \<and>
              entry = ledgerEntry productId p)"
    and sav: "\<forall>pre m ok post.
         trace ?fin = pre @ Save m ok # post \<longrightarrow> m = replay pre known_ledger"
    by simp_all
  from grow [rule_format, of "[]" "trace ?fin" "[]"] a
  have le: "known_ledger \<subseteq>\<^sub>m seenProducts ?fin" by simp
  from mixed_run_facts obtain ev where "ev \<in> set (trace ?fin)" "isRecord ev"
    by (auto simp: list_ex_iff)
  then obtain productId entry where "Record productId entry \<in> set (trace ?fin)"
    by (auto simp: isRecord_conv)
  then obtain pre post where s1: "trace ?fin = pre @ Record productId entry # post"
    by (auto dest: split_list)
  with rec obtain p where r1: "replay pre known_ledger productId = None"
    "MIN_LAUNCH_YEAR \<le> p_launchYear p" "entry = ledgerEntry productId p" by blast
  from mixed_run_facts obtain ev2 where "ev2 \<in> set (trace ?fin)" "isSave ev2"
    by (auto simp: list_ex_iff)
  then obtain m ok where "Save m ok \<in> set (trace ?fin)"
    by (auto simp: isSave_conv)
  then obtain pre2 post2 where s2: "trace ?fin = pre2 @ Save m ok # post2"
    by (auto dest: split_list)
  with sav have r2: "m = replay pre2 known_ledger" by blast
  from key a le mixed_run_facts s1 r1 s2 r2 show ?thesis by blast
qed


end
